theory Spec2Isabelle
  imports Complex_Main "HOL-Library.AList" "HOL-Library.Sublist" "HOL-Library.Product_Lexorder"
    "HOL-Library.List_Lexorder" "HOL-Library.Char_ord" "HOL-Library.Code_Target_Nat"
begin

section \<open>Modelling conventions\<close>

text \<open>
  A JavaScript number is a double. A finite double is modelled by the \<^typ>\<open>real\<close> it
  denotes, and an arithmetic operation of the source by the exact operation followed by
  rounding to the nearest double (section \<open>JavaScript numbers\<close>); counts and indexes are
  \<^typ>\<open>nat\<close>. Strings are \<^typ>\<open>string\<close>, one \<^typ>\<open>char\<close> per code unit, so the
  code units are those below 256 (Latin-1), with their rules for letters, digits and case.
  A JavaScript \<open>Map\<close> is an association list in insertion order: \<open>get\<close> is
  \<^const>\<open>map_of\<close>, \<open>set\<close> is \<^const>\<open>AList.update\<close> (an existing key keeps its place, a
  new key goes to the end), \<open>size\<close> is \<^const>\<open>length\<close>; such a list never holds one key
  twice. \<open>Array.prototype.sort\<close> with a comparator \<open>(a, b) => key(a) - key(b)\<close> is the stable
  sort \<^const>\<open>sort_key\<close>.
\<close>

subsection \<open>Characters and built-in string operations\<close>

definition is_lower_letter :: "char \<Rightarrow> bool" where
  "is_lower_letter c = (let n = (of_char c :: nat) in 97 \<le> n \<and> n \<le> 122)"

definition is_upper_letter :: "char \<Rightarrow> bool" where
  "is_upper_letter c = (let n = (of_char c :: nat) in 65 \<le> n \<and> n \<le> 90)"

definition is_digit :: "char \<Rightarrow> bool" where
  "is_digit c = (let n = (of_char c :: nat) in 48 \<le> n \<and> n \<le> 57)"

text \<open>The regular-expression class \<open>\w\<close>, which decides the word boundaries \<open>\b\<close>.\<close>

definition is_word_char :: "char \<Rightarrow> bool" where
  "is_word_char c = (is_lower_letter c \<or> is_upper_letter c \<or> is_digit c \<or> c = CHR ''_'')"

text \<open>The class \<open>[a-z0-9\-]\<close>.\<close>

definition is_term_char :: "char \<Rightarrow> bool" where
  "is_term_char c = (is_lower_letter c \<or> is_digit c \<or> c = CHR ''-'')"

text \<open>
  \<open>String.prototype.toLowerCase\<close> on one code unit: the letters \<open>A\<close> to \<open>Z\<close>, and the
  Latin-1 capitals from 192 to 222 other than the multiplication sign 215, move up by 32.
\<close>

definition toLowerCase_char :: "char \<Rightarrow> char" where
  "toLowerCase_char c =
     (let n = (of_char c :: nat)
      in if (65 \<le> n \<and> n \<le> 90) \<or> (192 \<le> n \<and> n \<le> 222 \<and> n \<noteq> 215) then char_of (n + 32) else c)"

definition toLowerCase :: "string \<Rightarrow> string" where
  "toLowerCase s = map toLowerCase_char s"

text \<open>\<open>[...new Set(xs)]\<close>: the elements of \<open>xs\<close> in order of first occurrence.\<close>

fun unique :: "'a list \<Rightarrow> 'a list" where
  "unique [] = []"
| "unique (x # xs) = x # unique (filter (\<lambda>y. y \<noteq> x) xs)"


section \<open>JavaScript numbers\<close>

text \<open>Rounding a real to the nearest integer, a tie going to the even one.\<close>

definition round_even :: "real \<Rightarrow> int" where
  "round_even q =
     (let n = \<lfloor>q\<rfloor>; r = q - of_int n
      in if r < 1 / 2 then n else if r > 1 / 2 then n + 1 else if even n then n else n + 1)"

text \<open>
  The binade of a positive real \<open>x\<close>: the \<open>k\<close> with \<open>2\<^sup>k \<le> x < 2\<^bsup>k+1\<^esup>\<close>, that is
  \<open>\<lfloor>log 2 x\<rfloor>\<close>, found by doubling or halving.
\<close>

function binade :: "real \<Rightarrow> int" where
  "binade x =
     (if x \<le> 0 then 0
      else if x < 1 then binade (2 * x) - 1
      else if 2 \<le> x then binade (x / 2) + 1
      else 0)"
  by pat_completeness auto
termination
proof (relation "measure (\<lambda>x. if x < 1 then nat \<lceil>1 / x\<rceil> else nat \<lfloor>x\<rfloor>)", goal_cases)
  case 1
  show ?case by simp
next
  case (2 x)
  then have x: "0 < x" "x < 1" by simp_all
  then have y: "1 < 1 / x" by simp
  then have c2: "2 \<le> \<lceil>1 / x\<rceil>" by linarith
  show ?case
  proof (cases "2 * x < 1")
    case True
    define y where "y = 1 / x"
    have h: "1 / (2 * x) = y / 2" by (simp add: y_def)
    have "y \<le> of_int \<lceil>y\<rceil>" by linarith
    moreover have "(2::real) \<le> of_int \<lceil>y\<rceil>" using c2 unfolding y_def by linarith
    ultimately have "y / 2 \<le> of_int \<lceil>y\<rceil> - 1" by linarith
    then have "\<lceil>y / 2\<rceil> < \<lceil>y\<rceil>" by (simp only: ceiling_less_iff)
    then have "\<lceil>1 / (2 * x)\<rceil> < \<lceil>1 / x\<rceil>" by (simp only: h y_def)
    then show ?thesis using True x c2 by simp
  next
    case False
    then have "1 \<le> 2 * x" "2 * x < 2" using x by simp_all
    then have "\<lfloor>2 * x\<rfloor> = 1" by linarith
    then show ?thesis using False x c2 by simp
  qed
next
  case (3 x)
  then have x: "2 \<le> x" by simp
  have "x / 2 < of_int \<lfloor>x\<rfloor>" using x by linarith
  then have "\<lfloor>x / 2\<rfloor> < \<lfloor>x\<rfloor>" by (simp only: floor_less_iff)
  moreover have "0 < \<lfloor>x\<rfloor>" using x by linarith
  ultimately show ?case using x by simp
qed

declare binade.simps [simp del]

text \<open>
  The double nearest to a real \<open>x\<close>: 53 significant bits, ties to even. The exponent range
  is not bounded here, so overflow and subnormal numbers are left out. A decimal literal of
  the source that is no double, such as \<open>0.3\<close>, denotes \<open>fl\<close> of its value.
\<close>

definition fl :: "real \<Rightarrow> real" where
  "fl x =
     (if x = 0 then 0
      else let e = binade \<bar>x\<bar> - 52
           in of_int (round_even (x / 2 powi e)) * 2 powi e)"

text \<open>
  \<open>Math.sqrt\<close> on a double that is not negative: the double nearest to the square root. With
  \<open>e\<close> the exponent of the result, \<open>sqrt x / 2\<^sup>e\<close> is the square root of \<open>y = x / 4\<^sup>e\<close>; its
  integer part is the integer square root of \<open>\<lfloor>y\<rfloor>\<close>, found by bisection, and the rounding
  is decided by comparing \<open>y\<close> with the square of the midpoint.
\<close>

function isqrt_between :: "int \<Rightarrow> int \<Rightarrow> int \<Rightarrow> int" where
  "isqrt_between n lo hi =
     (if hi \<le> lo + 1 then lo
      else let mid = (lo + hi) div 2
           in if mid * mid \<le> n then isqrt_between n mid hi else isqrt_between n lo mid)"
  by pat_completeness auto
termination
  by (relation "measure (\<lambda>(n, lo, hi). nat (hi - lo))") auto

declare isqrt_between.simps [simp del]

definition isqrt :: "int \<Rightarrow> int" where
  "isqrt n = isqrt_between n 0 (n + 1)"

definition sqrt_double :: "real \<Rightarrow> real" where
  "sqrt_double x =
     (if x \<le> 0 then 0
      else let e = binade x div 2 - 52;
               y = x / 2 powi (2 * e);
               n = isqrt \<lfloor>y\<rfloor>;
               h = (of_int n + 1 / 2)\<^sup>2
           in of_int (if y < h then n else if h < y then n + 1 else if even n then n else n + 1)
              * 2 powi e)"

text \<open>
  A number that may be \<open>NaN\<close>, with the additions, multiplications and comparisons of the
  source on it. \<open>undefined\<close> in arithmetic or in a comparison counts as \<open>NaN\<close>.
\<close>

datatype number = Num real | NaN

definition js_add :: "number \<Rightarrow> number \<Rightarrow> number" where
  "js_add a b = (case (a, b) of (Num x, Num y) \<Rightarrow> Num (fl (x + y)) | _ \<Rightarrow> NaN)"

definition js_mul :: "number \<Rightarrow> number \<Rightarrow> number" where
  "js_mul a b = (case (a, b) of (Num x, Num y) \<Rightarrow> Num (fl (x * y)) | _ \<Rightarrow> NaN)"

definition js_ge :: "number \<Rightarrow> number \<Rightarrow> bool" where
  "js_ge a b = (case (a, b) of (Num x, Num y) \<Rightarrow> x \<ge> y | _ \<Rightarrow> False)"

section \<open>Co-occurrence vectorizer (vectorizer.js)\<close>

subsection \<open>Configuration\<close>

text \<open>
  The literal \<open>0.3\<close> of \<open>minSimilarity\<close> is no double; it denotes the double nearest to it.
\<close>

record config =
  windowSize :: nat
  minFrequency :: nat
  maxTerms :: nat
  minSimilarity :: real
  maxExpansions :: nat
  stopwords :: "string set"

definition CONFIG :: config where
  "CONFIG = \<lparr>
     windowSize = 7,
     minFrequency = 2,
     maxTerms = 10000,
     minSimilarity = fl (3 / 10),
     maxExpansions = 5,
     stopwords = {
       ''the'', ''be'', ''to'', ''of'', ''and'', ''a'', ''in'', ''that'', ''have'', ''i'',
       ''it'', ''for'', ''not'', ''on'', ''with'', ''he'', ''as'', ''you'', ''do'', ''at'',
       ''this'', ''but'', ''his'', ''by'', ''from'', ''they'', ''we'', ''say'', ''her'', ''she'',
       ''or'', ''an'', ''will'', ''my'', ''one'', ''all'', ''would'', ''there'', ''their'',
       ''what'', ''so'', ''up'', ''out'', ''if'', ''about'', ''who'', ''get'', ''which'', ''go'',
       ''me'', ''when'', ''make'', ''can'', ''like'', ''time'', ''no'', ''just'', ''him'', ''know'',
       ''take'', ''people'', ''into'', ''year'', ''your'', ''good'', ''some'', ''could'', ''them'',
       ''see'', ''other'', ''than'', ''then'', ''now'', ''look'', ''only'', ''come'', ''its'', ''over'',
       ''think'', ''also'', ''back'', ''after'', ''use'', ''two'', ''how'', ''our'', ''work'',
       ''first'', ''well'', ''way'', ''even'', ''new'', ''want'', ''because'', ''any'', ''these'',
       ''give'', ''day'', ''most'', ''us'', ''is'', ''was'', ''are'', ''been'', ''has'', ''had'',
       ''were'', ''said'', ''did'', ''having'', ''may'', ''should'', ''does'', ''am''} \<rparr>"

subsection \<open>Tokenization\<close>

text \<open>An entry of the token and phrase arrays: \<open>{term, position}\<close>.\<close>

record token =
  tok_term :: string
  tok_position :: nat

text \<open>
  The pattern \<open>/\b[a-z][a-z0-9\-]*\b/g\<close>. A word boundary lies at index \<open>i\<close> when exactly
  one of the characters before and at \<open>i\<close> is a word character (the ends of the text count
  as non-word).
\<close>

definition word_at :: "string \<Rightarrow> nat \<Rightarrow> bool" where
  "word_at text i = (i < length text \<and> is_word_char (text ! i))"

definition boundary_at :: "string \<Rightarrow> nat \<Rightarrow> bool" where
  "boundary_at text i = ((0 < i \<and> word_at text (i - 1)) \<noteq> word_at text i)"

text \<open>
  A match starting at \<open>s\<close>: a boundary, a letter, then the greedy run of \<open>[a-z0-9\-]\<close>,
  given back one character at a time until the match ends on a boundary. The result is the
  index just after the match.
\<close>

definition match_at :: "string \<Rightarrow> nat \<Rightarrow> nat option" where
  "match_at text s =
     (if boundary_at text s \<and> s < length text \<and> is_lower_letter (text ! s) then
        let r = length (takeWhile is_term_char (drop (Suc s) text))
        in find (boundary_at text) (rev [Suc s ..< Suc s + Suc r])
      else None)"

text \<open>
  The \<open>while ((match = wordPattern.exec(text)) !== null)\<close> loop of \<open>tokenize\<close>, from
  \<open>lastIndex = s\<close>: stopwords and tokens shorter than 2 are skipped.
\<close>

function tokenize_from :: "config \<Rightarrow> string \<Rightarrow> nat \<Rightarrow> token list" where
  "tokenize_from cfg text s =
     (if length text \<le> s then []
      else
        (case match_at text s of
           None \<Rightarrow> tokenize_from cfg text (Suc s)
         | Some e \<Rightarrow>
             (let tk = take (e - s) (drop s text)
              in (if tk \<in> stopwords cfg then []
                  else if length tk < 2 then []
                  else [\<lparr>tok_term = tk, tok_position = s\<rparr>])
                 @ tokenize_from cfg text e)))"
  by pat_completeness auto
termination
proof (relation "measure (\<lambda>(cfg, inp, s). length inp - s)", goal_cases)
  case 1
  show ?case by simp
next
  case (2 cfg inp s)
  then show ?case by simp
next
  case (3 cfg inp s e)
  have mem: "find P xs = Some x \<Longrightarrow> x \<in> set xs" for P and xs :: "nat list" and x
    by (induction xs) (auto split: if_splits)
  have "s < e"
    using 3(2) by (auto simp: match_at_def Let_def split: if_splits dest!: mem)
  then show ?case using 3(1) by simp
qed

declare tokenize_from.simps [simp del]

definition tokenize :: "config \<Rightarrow> string \<Rightarrow> token list" where
  "tokenize cfg text = tokenize_from cfg (toLowerCase text) 0"

text \<open>\<open>extractPhrases\<close>: the bigram loop, then the trigram loop.\<close>

fun bigrams :: "token list \<Rightarrow> token list" where
  "bigrams (a # b # rest) =
     \<lparr>tok_term = tok_term a @ '' '' @ tok_term b, tok_position = tok_position a\<rparr>
       # bigrams (b # rest)"
| "bigrams _ = []"

fun trigrams :: "token list \<Rightarrow> token list" where
  "trigrams (a # b # c # rest) =
     \<lparr>tok_term = tok_term a @ '' '' @ tok_term b @ '' '' @ tok_term c,
      tok_position = tok_position a\<rparr>
       # trigrams (b # c # rest)"
| "trigrams _ = []"

definition extractPhrases :: "token list \<Rightarrow> token list" where
  "extractPhrases tokens = bigrams tokens @ trigrams tokens"

subsection \<open>Co-occurrence matrix\<close>

type_synonym vec = "(string \<times> nat) list"

text \<open>The result \<open>{matrix, termFrequencies, totalTerms}\<close>.\<close>

record coOccurrenceData =
  matrix :: "(string \<times> vec) list"
  termFrequencies :: vec
  totalTerms :: nat

text \<open>\<open>const count = m.get(k) || 0; m.set(k, count + 1)\<close>\<close>

definition increment :: "string \<Rightarrow> vec \<Rightarrow> vec" where
  "increment k m =
     (let count = (case map_of m k of Some c \<Rightarrow> c | None \<Rightarrow> 0)
      in AList.update k (count + 1) m)"

text \<open>
  The inner loop \<open>for (let j = windowStart; j <= windowEnd; j++)\<close> around the center \<open>i\<close>.
\<close>

definition windowLoop :: "string list \<Rightarrow> nat \<Rightarrow> nat list \<Rightarrow> vec \<Rightarrow> vec" where
  "windowLoop terms i js centerVector =
     fold (\<lambda>j v. if i = j then v else increment (terms ! j) v) js centerVector"

text \<open>
  One round of the outer loop. \<open>windowStart = Math.max(0, i - windowSize)\<close> is the
  truncating subtraction of \<^typ>\<open>nat\<close>; \<open>windowEnd = Math.min(length - 1, i + windowSize)\<close>.
  The center vector is shared with the matrix, so the matrix sees its updates.
\<close>

definition centerStep :: "config \<Rightarrow> string list \<Rightarrow> nat \<Rightarrow> (string \<times> vec) list \<Rightarrow> (string \<times> vec) list" where
  "centerStep cfg terms i coOccurrence =
     (let centerTerm = terms ! i;
          coOccurrence1 = (if map_of coOccurrence centerTerm = None
                           then AList.update centerTerm [] coOccurrence else coOccurrence);
          centerVector = (case map_of coOccurrence1 centerTerm of Some v \<Rightarrow> v | None \<Rightarrow> []);
          windowStart = i - windowSize cfg;
          windowEnd = min (length terms - 1) (i + windowSize cfg)
      in AList.update centerTerm
           (windowLoop terms i [windowStart ..< Suc windowEnd] centerVector) coOccurrence1)"

text \<open>The three phases of \<open>buildCoOccurrenceMatrix\<close>, then the function itself.\<close>

definition countFrequencies :: "token list \<Rightarrow> vec" where
  "countFrequencies allTerms = fold (\<lambda>item termFreq. increment (tok_term item) termFreq) allTerms []"

definition filterByFrequency :: "config \<Rightarrow> vec \<Rightarrow> token list \<Rightarrow> token list" where
  "filterByFrequency cfg termFreq allTerms =
     filter (\<lambda>item.
         (case map_of termFreq (tok_term item) of Some c \<Rightarrow> c | None \<Rightarrow> 0) \<ge> minFrequency cfg)
       allTerms"

definition slidingWindow :: "config \<Rightarrow> string list \<Rightarrow> (string \<times> vec) list" where
  "slidingWindow cfg terms = fold (centerStep cfg terms) [0 ..< length terms] []"

definition buildCoOccurrenceMatrix :: "config \<Rightarrow> string \<Rightarrow> coOccurrenceData" where
  "buildCoOccurrenceMatrix cfg text =
     (let tokens = tokenize cfg text;
          phrases = extractPhrases tokens;
          allTerms = tokens @ phrases;
          termFreq = countFrequencies allTerms;
          validTerms = filterByFrequency cfg termFreq allTerms;
          coOccurrence = slidingWindow cfg (map tok_term validTerms)
      in \<lparr>matrix = coOccurrence, termFrequencies = termFreq, totalTerms = length validTerms\<rparr>)"

text \<open>
  The sequence \<open>validTerms\<close> that \<open>buildCoOccurrenceMatrix\<close> slides its window over, as
  terms (named for the statements about the matrix).
\<close>

definition validTermsOf :: "config \<Rightarrow> string \<Rightarrow> string list" where
  "validTermsOf cfg text =
     (let tokens = tokenize cfg text;
          allTerms = tokens @ extractPhrases tokens
      in map tok_term (filterByFrequency cfg (countFrequencies allTerms) allTerms))"

subsection \<open>Vector similarity\<close>

text \<open>
  The three accumulation loops of \<open>cosineSimilarity\<close>. The counts are integers; every
  addition, multiplication, division and square root is rounded as JavaScript computes it
  on doubles.
\<close>

definition dotProduct_double :: "vec \<Rightarrow> vec \<Rightarrow> real" where
  "dotProduct_double vec1 vec2 =
     fold (\<lambda>(term, count1) acc.
             (case map_of vec2 term of
                Some count2 \<Rightarrow> fl (acc + fl (real count1 * real count2))
              | None \<Rightarrow> acc)) vec1 0"

definition sumSquares_double :: "vec \<Rightarrow> real" where
  "sumSquares_double v = fold (\<lambda>(term, count) acc. fl (acc + fl (real count * real count))) v 0"

text \<open>
  \<open>cosineSimilarity(vec1, vec2)\<close>; an argument that is \<open>null\<close> or \<open>undefined\<close> is
  \<^const>\<open>None\<close>.
\<close>

definition cosineSimilarity_double :: "vec option \<Rightarrow> vec option \<Rightarrow> real" where
  "cosineSimilarity_double v1 v2 =
     (case (v1, v2) of
        (Some vec1, Some vec2) \<Rightarrow>
          if length vec1 = 0 \<or> length vec2 = 0 then 0
          else
            let dp = dotProduct_double vec1 vec2;
                mag1 = sqrt_double (sumSquares_double vec1);
                mag2 = sqrt_double (sumSquares_double vec2)
            in if mag1 = 0 \<or> mag2 = 0 then 0 else fl (dp / fl (mag1 * mag2))
      | _ \<Rightarrow> 0)"

text \<open>
  The same function with no operation rounded: the exact quotient that the doubles
  approximate, for the statements that compare the two.
\<close>

definition dotProduct :: "vec \<Rightarrow> vec \<Rightarrow> real" where
  "dotProduct vec1 vec2 =
     fold (\<lambda>(term, count1) acc.
             (case map_of vec2 term of
                Some count2 \<Rightarrow> acc + real count1 * real count2
              | None \<Rightarrow> acc)) vec1 0"

definition sumSquares :: "vec \<Rightarrow> real" where
  "sumSquares v = fold (\<lambda>(term, count) acc. acc + real count * real count) v 0"

definition cosineSimilarity :: "vec option \<Rightarrow> vec option \<Rightarrow> real" where
  "cosineSimilarity v1 v2 =
     (case (v1, v2) of
        (Some vec1, Some vec2) \<Rightarrow>
          if length vec1 = 0 \<or> length vec2 = 0 then 0
          else
            let dp = dotProduct vec1 vec2;
                mag1 = sqrt (sumSquares vec1);
                mag2 = sqrt (sumSquares vec2)
            in if mag1 = 0 \<or> mag2 = 0 then 0 else dp / (mag1 * mag2)
      | _ \<Rightarrow> 0)"

text \<open>
  \<open>findSimilarTerms(queryTerm, coOccurrenceData, maxResults)\<close>: the entries
  \<open>{term, similarity}\<close> are pairs. The comparator \<open>b.similarity - a.similarity\<close> sorts by
  descending similarity; \<open>slice(0, maxResults)\<close> is \<^const>\<open>take\<close>. The similarities are the
  doubles \<open>cosineSimilarity\<close> returns, and \<open>minSimilarity\<close> is the double of \<open>0.3\<close>.
\<close>

definition findSimilarTerms :: "config \<Rightarrow> string \<Rightarrow> coOccurrenceData \<Rightarrow> nat \<Rightarrow> (string \<times> real) list" where
  "findSimilarTerms cfg queryTerm0 coData maxResults =
     (let queryTerm = toLowerCase queryTerm0
      in case map_of (matrix coData) queryTerm of
           None \<Rightarrow> []
         | Some queryVector \<Rightarrow>
             let similarities = concat (map (\<lambda>(term, termVector).
                     if term = queryTerm then []
                     else
                       let similarity = cosineSimilarity_double (Some queryVector) (Some termVector)
                       in if similarity \<ge> minSimilarity cfg then [(term, similarity)] else [])
                   (matrix coData))
             in take maxResults (sort_key (\<lambda>e. - snd e) similarities))"

subsection \<open>Query expansion\<close>

text \<open>An expanded concept \<open>{originalTerm, expandedTerms, similarities}\<close>.\<close>

record expansion =
  originalTerm :: string
  expandedTerms :: "string list"
  similarities :: "real list"

text \<open>
  \<open>expandQuery(queryText, documentId)\<close>. The storage call
  \<open>window.InvantiaDB.getVectors(documentId)\<close> is the parameter \<open>getVectors\<close>; it answers
  \<^const>\<open>None\<close> for a document without a stored index.
\<close>

definition expandQuery :: "config \<Rightarrow> (nat \<Rightarrow> coOccurrenceData option) \<Rightarrow> string \<Rightarrow> nat \<Rightarrow> expansion list" where
  "expandQuery cfg getVectors queryText documentId =
     (case getVectors documentId of
        None \<Rightarrow>
          map (\<lambda>t. \<lparr>originalTerm = tok_term t, expandedTerms = [tok_term t], similarities = [1]\<rparr>)
            (tokenize cfg queryText)
      | Some vectors \<Rightarrow>
          let queryTokens = tokenize cfg queryText;
              queryPhrases = extractPhrases queryTokens;
              allQueryTerms = queryTokens @ queryPhrases;
              uniqueTerms = unique (map tok_term allQueryTerms)
          in map (\<lambda>term.
                 let similar = findSimilarTerms cfg term vectors (maxExpansions cfg)
                 in \<lparr>originalTerm = term,
                     expandedTerms = term # map fst similar,
                     similarities = 1 # map snd similar\<rparr>)
               uniqueTerms)"

section \<open>Query engine (search.js)\<close>

subsection \<open>Built-in string operations\<close>

text \<open>
  \<open>content.indexOf(search, position)\<close>: the least index from \<open>min(position, length)\<close> on
  at which \<open>search\<close> starts, or \<open>-1\<close>. The empty string is found at every index up to the
  length of the content.
\<close>

definition indexOf :: "string \<Rightarrow> string \<Rightarrow> nat \<Rightarrow> int" where
  "indexOf content search position =
     (let start = min position (length content)
      in case find (\<lambda>k. prefix search (drop k content)) [start ..< Suc (length content)] of
           Some k \<Rightarrow> int k
         | None \<Rightarrow> - 1)"

text \<open>\<open>content.includes(search)\<close>\<close>

definition includes_str :: "string \<Rightarrow> string \<Rightarrow> bool" where
  "includes_str content search = (indexOf content search 0 \<noteq> - 1)"

subsection \<open>Scoring configuration and data\<close>

text \<open>
  The literal \<open>0.7\<close> of \<open>highSimilarityThreshold\<close> denotes the double nearest to it; the
  other values are integers.
\<close>

record scoringConfig =
  originalTermWeight :: real
  semanticWeight :: real
  proximityWeight :: real
  highSimilarityThreshold :: real
  minimumScoreThreshold :: real
  proximityDistance :: nat

definition SCORING_CONFIG :: scoringConfig where
  "SCORING_CONFIG = \<lparr>
     originalTermWeight = 100,
     semanticWeight = 30,
     proximityWeight = 50,
     highSimilarityThreshold = fl (7 / 10),
     minimumScoreThreshold = 30,
     proximityDistance = 200 \<rparr>"

text \<open>A stored chunk, and an entry \<open>{similarity, isOriginal}\<close> of \<open>termMetadata\<close>.\<close>

record chunk =
  chunk_id :: nat
  documentId :: nat
  chunkNumber :: nat
  content :: string

record metadata =
  similarity :: number
  isOriginal :: bool

text \<open>
  The single concept of a topic. A missing \<open>terms\<close> or \<open>originalTerms\<close> is the empty list, a
  missing \<open>termMetadata\<close> the empty object (\<open>concept.terms || []\<close> and so on).
  \<open>termMetadata\<close> is a plain object: the map holds its own properties.
\<close>

record concept =
  terms :: "string list"
  originalTerms :: "string list"
  termMetadata :: "string \<rightharpoonup> metadata"

text \<open>
  \<open>termMetadata[term] || { similarity: 0.5, isOriginal: false }\<close>. A plain object answers
  for its own properties and for the members it inherits from \<open>Object.prototype\<close>. An
  inherited member is a function (for \<open>__proto__\<close> the prototype itself), so it is truthy
  and the default is not taken; its \<open>isOriginal\<close> and \<open>similarity\<close> are \<open>undefined\<close>, which
  is falsy in the test and \<open>NaN\<close> in the comparison and the product.
\<close>

definition objectPrototypeProperties :: "string list" where
  "objectPrototypeProperties =
     [''constructor'', ''hasOwnProperty'', ''isPrototypeOf'', ''propertyIsEnumerable'',
      ''toLocaleString'', ''toString'', ''valueOf'', ''__proto__'',
      ''__defineGetter__'', ''__defineSetter__'', ''__lookupGetter__'', ''__lookupSetter__'']"

definition lookupMetadata :: "(string \<rightharpoonup> metadata) \<Rightarrow> string \<Rightarrow> metadata" where
  "lookupMetadata termMeta term =
     (case termMeta term of
        Some m \<Rightarrow> m
      | None \<Rightarrow>
          if term \<in> set objectPrototypeProperties then \<lparr>similarity = NaN, isOriginal = False\<rparr>
          else \<lparr>similarity = Num (1 / 2), isOriginal = False\<rparr>)"

text \<open>The object \<open>scoreChunk\<close> returns.\<close>

record scoreBreakdown =
  totalScore :: number
  originalTermScore :: number
  semanticScore :: number
  proximityScore :: number
  matchedTerms :: "string list"
  matchedOriginalTerms :: "string list"
  matchCount :: nat

text \<open>
  A scored chunk \<open>{...chunk, relevanceScore, scoreDetails}\<close>. The packer and the formatter
  also accept a chunk without a score, which is \<^const>\<open>None\<close>.
\<close>

record scoredChunk = chunk +
  relevanceScore :: "number option"
  scoreDetails :: "scoreBreakdown option"

subsection \<open>Chunk scoring\<close>

text \<open>
  The loop \<open>while (index !== -1)\<close> of \<open>calculateProximityScore\<close> for one term. For the empty
  term it never ends (\<open>indexOf\<close> keeps answering the length of the content), so the loop is a
  partial function: \<^const>\<open>None\<close> stands for not returning.
\<close>

partial_function (option) occurrencesLoop :: "string \<Rightarrow> string \<Rightarrow> int \<Rightarrow> nat list \<Rightarrow> nat list option" where
  [code]: "occurrencesLoop contentLower termLower index positions =
     (if index \<noteq> - 1
      then occurrencesLoop contentLower termLower
             (indexOf contentLower termLower (nat index + 1)) (positions @ [nat index])
      else Some positions)"

text \<open>The \<open>matchedTerms.forEach\<close> around it.\<close>

fun collectPositions :: "string \<Rightarrow> string list \<Rightarrow> nat list \<Rightarrow> nat list option" where
  "collectPositions contentLower [] positions = Some positions"
| "collectPositions contentLower (term # rest) positions =
     (let termLower = toLowerCase term
      in case occurrencesLoop contentLower termLower (indexOf contentLower termLower 0) positions of
           None \<Rightarrow> None
         | Some positions' \<Rightarrow> collectPositions contentLower rest positions')"

text \<open>
  The minimum-distance loop over the sorted positions; \<open>minDistance = Infinity\<close> is
  \<^const>\<open>None\<close>.
\<close>

definition minDistanceLoop :: "nat list \<Rightarrow> nat option" where
  "minDistanceLoop positions =
     fold (\<lambda>i minDistance.
             let distance = positions ! (i + 1) - positions ! i
             in case minDistance of
                  None \<Rightarrow> Some distance
                | Some m \<Rightarrow> if distance < m then Some distance else Some m)
          [0 ..< length positions - 1] None"

text \<open>
  \<open>calculateProximityScore(content, matchedTerms)\<close>: the division, the subtraction and the
  product are rounded.
\<close>

definition calculateProximityScore :: "string \<Rightarrow> string list \<Rightarrow> number option" where
  "calculateProximityScore contentLower matched =
     (case collectPositions contentLower matched [] of
        None \<Rightarrow> None
      | Some positions \<Rightarrow>
          Some (if length positions < 2 then Num 0
                else
                  case minDistanceLoop (sort positions) of
                    None \<Rightarrow> Num 0
                  | Some minDistance \<Rightarrow>
                      if minDistance \<le> proximityDistance SCORING_CONFIG then
                        let proximityRatio =
                              fl (1 - fl (real minDistance / real (proximityDistance SCORING_CONFIG)))
                        in Num (fl (proximityWeight SCORING_CONFIG * proximityRatio))
                      else Num 0))"

text \<open>
  The body of \<open>terms.forEach\<close> in \<open>scoreChunk\<close>, on the accumulators
  \<open>(originalTermScore, semanticScore, matchedTerms, matchedOriginalTerms)\<close>; \<open>contentLower\<close>
  is the lower-cased chunk content (the source's local \<open>content\<close>).
\<close>

definition scoreTerm ::
  "concept \<Rightarrow> string \<Rightarrow> string \<Rightarrow> number \<times> number \<times> string list \<times> string list
     \<Rightarrow> number \<times> number \<times> string list \<times> string list" where
  "scoreTerm cpt contentLower term acc =
     (case acc of (originalScore, semScore, matched, matchedOriginal) \<Rightarrow>
        let termLower = toLowerCase term
        in if includes_str contentLower termLower then
             let meta = lookupMetadata (termMetadata cpt) term
             in if isOriginal meta \<or> term \<in> set (originalTerms cpt) then
                  (js_add originalScore (Num (originalTermWeight SCORING_CONFIG)), semScore,
                   matched @ [term], matchedOriginal @ [term])
                else if js_ge (similarity meta) (Num (highSimilarityThreshold SCORING_CONFIG)) then
                  (originalScore,
                   js_add semScore (js_mul (Num (semanticWeight SCORING_CONFIG)) (similarity meta)),
                   matched @ [term], matchedOriginal)
                else
                  (originalScore,
                   js_add semScore
                     (js_mul (js_mul (Num (semanticWeight SCORING_CONFIG)) (similarity meta)) (Num (1 / 2))),
                   matched @ [term], matchedOriginal)
           else acc)"

text \<open>
  \<open>scoreChunk(chunk, concept)\<close>; \<open>originalTermScore + semanticScore + proximityScore\<close> adds
  from the left.
\<close>

definition scoreChunk :: "'a chunk_scheme \<Rightarrow> concept \<Rightarrow> scoreBreakdown option" where
  "scoreChunk chunk cpt =
     (let contentLower = toLowerCase (content chunk)
      in case fold (scoreTerm cpt contentLower) (terms cpt) (Num 0, Num 0, [], []) of
           (originalScore, semScore, matched, matchedOriginal) \<Rightarrow>
             (case (if length matched \<ge> 2 then calculateProximityScore contentLower matched
                    else Some (Num 0)) of
                None \<Rightarrow> None
              | Some proxScore \<Rightarrow>
                  Some \<lparr>totalScore = js_add (js_add originalScore semScore) proxScore,
                        originalTermScore = originalScore,
                        semanticScore = semScore,
                        proximityScore = proxScore,
                        matchedTerms = matched,
                        matchedOriginalTerms = matchedOriginal,
                        matchCount = length matched\<rparr>))"

subsection \<open>Block execution and spatial filtering\<close>

text \<open>
  A block of the normalized query: one topic with its concepts. \<open>spatialCategory\<close> and the
  detected pattern are the strings of the source.
\<close>

record block =
  topicId :: nat
  topicQuestion :: string
  spatialCategory :: string
  inclusionConcepts :: "concept list"

text \<open>
  \<open>calculateSpatialVariance\<close>: the two \<open>reduce\<close> sums, the divisions, \<open>Math.pow(x, 2)\<close> and
  \<open>Math.sqrt\<close> on doubles.
\<close>

definition calculateSpatialVariance :: "'a chunk_scheme list \<Rightarrow> real" where
  "calculateSpatialVariance chunks =
     (if length chunks = 0 then 0
      else if length chunks = 1 then 0
      else
        let positions = map (\<lambda>c. real (chunkNumber c)) chunks;
            mean = fl (fold (\<lambda>pos sum. fl (sum + pos)) positions 0 / real (length positions));
            squaredDiffs = map (\<lambda>pos. fl ((fl (pos - mean))\<^sup>2)) positions;
            variance = fl (fold (\<lambda>sq sum. fl (sum + sq)) squaredDiffs 0 / real (length positions))
        in sqrt_double variance)"

definition detectSpatialPattern :: "real \<Rightarrow> nat \<Rightarrow> string" where
  "detectSpatialPattern variance chunkCount =
     (if chunkCount = 0 then ''none''
      else if chunkCount = 1 then ''single''
      else if variance < 10 then ''concentrated''
      else if variance > 50 then ''spread''
      else ''moderate'')"

definition filterBySpatialCategory :: "'a chunk_scheme list \<Rightarrow> string \<Rightarrow> 'a chunk_scheme list" where
  "filterBySpatialCategory chunks category =
     (let variance = calculateSpatialVariance chunks;
          pattern = detectSpatialPattern variance (length chunks)
      in if category = ''concentrated'' \<and> pattern = ''concentrated'' then chunks
         else if category = ''spread'' \<and> pattern = ''spread'' then chunks
         else if category = ''concentrated'' \<or> category = ''spread'' then []
         else chunks)"

text \<open>The scored copy \<open>{...chunk, relevanceScore: score.totalScore, scoreDetails: score}\<close>.\<close>

definition withScore :: "chunk \<Rightarrow> scoreBreakdown \<Rightarrow> scoredChunk" where
  "withScore c score =
     \<lparr>chunk_id = chunk_id c, documentId = documentId c, chunkNumber = chunkNumber c,
      content = content c, relevanceScore = Some (totalScore score), scoreDetails = Some score\<rparr>"

text \<open>
  The score the comparator reads. Only chunks that passed the threshold are sorted, and their
  score is a double, not \<open>NaN\<close>.
\<close>

definition scoreOf :: "scoredChunk \<Rightarrow> real" where
  "scoreOf c = (case relevanceScore c of Some (Num s) \<Rightarrow> s | _ \<Rightarrow> 0)"

text \<open>The test \<open>c.relevanceScore >= SCORING_CONFIG.minimumScoreThreshold\<close>.\<close>

definition qualifies :: "scoredChunk \<Rightarrow> bool" where
  "qualifies c =
     (case relevanceScore c of
        Some s \<Rightarrow> js_ge s (Num (minimumScoreThreshold SCORING_CONFIG))
      | None \<Rightarrow> False)"

text \<open>
  \<open>executeBlockWithScoring(block, searchableChunks)\<close>. The result is \<^const>\<open>None\<close> when
  scoring some chunk does not return. The comparator \<open>b.relevanceScore - a.relevanceScore\<close>
  sorts by descending score: the rounded difference of two doubles has the sign of the exact
  one.
\<close>

definition executeBlockWithScoring :: "block \<Rightarrow> chunk list \<Rightarrow> scoredChunk list option" where
  "executeBlockWithScoring blk searchableChunks =
     (case inclusionConcepts blk of
        [] \<Rightarrow> Some []
      | cpt # _ \<Rightarrow>
          (case those (map (\<lambda>c. map_option (withScore c) (scoreChunk c cpt)) searchableChunks) of
             None \<Rightarrow> None
           | Some scoredChunks \<Rightarrow>
               let qualifyingChunks = filter qualifies scoredChunks;
                   ranked = sort_key (\<lambda>c. - scoreOf c) qualifyingChunks
               in if spatialCategory blk \<noteq> ''auto''
                  then Some (filterBySpatialCategory ranked (spatialCategory blk))
                  else Some ranked))"

section \<open>Super chunks: packing and formatting (search.js)\<close>

subsection \<open>Numbers as text\<close>

text \<open>\<open>String(n)\<close> for a non-negative integer: its decimal digits.\<close>

function show_nat :: "nat \<Rightarrow> string" where
  "show_nat n =
     (if n < 10 then [char_of (48 + n)]
      else show_nat (n div 10) @ [char_of (48 + n mod 10)])"
  by pat_completeness auto
termination
  by (relation "measure id") auto

declare show_nat.simps [simp del]

text \<open>
  \<open>x.toFixed(1)\<close>: the tenths nearest to \<open>x\<close>, the larger one on a tie, for \<open>|x| < 10\<^sup>2\<^sup>1\<close>.
\<close>

definition toFixed1 :: "real \<Rightarrow> string" where
  "toFixed1 x =
     (let n = nat \<lfloor>\<bar>x\<bar> * 10 + 1 / 2\<rfloor>
      in (if x < 0 then ''-'' else '''') @ show_nat (n div 10) @ ''.'' @ show_nat (n mod 10))"

subsection \<open>Topic results, topic sections, super chunks\<close>

record topicResult =
  topicId :: nat
  topicQuestion :: string
  chunks :: "scoredChunk list"
  totalMatches :: nat

record topicSection =
  topicId :: nat
  topicQuestion :: string
  chunks :: "scoredChunk list"
  isContinuation :: bool

record superChunk =
  topics :: "topicSection list"
  totalChars :: nat
  isFirst :: bool

text \<open>The variables of the packing loop.\<close>

record packState =
  superChunks :: "superChunk list"
  currentChars :: nat
  currentTopics :: "topicSection list"
  isFirstSuperChunk :: bool

subsection \<open>Chronological sorting\<close>

text \<open>
  The comparator orders by \<open>documentId\<close>, then by \<open>chunkNumber\<close>: the lexicographic order of
  the pair.
\<close>

definition chronoKey :: "scoredChunk \<Rightarrow> nat \<times> nat" where
  "chronoKey c = (documentId c, chunkNumber c)"

definition sortChunksChronologically :: "scoredChunk list \<Rightarrow> scoredChunk list" where
  "sortChunksChronologically cs = sort_key chronoKey cs"

subsection \<open>Packing\<close>

definition formatChatPackageHeader :: "string list \<Rightarrow> string" where
  "formatChatPackageHeader allTopics =
     ''[[chat package]]\<newline>''
     @ ''[[Only respond with OK until all Super Chunks have been provided to you.]]\<newline>\<newline>''
     @ ''[[paste all super chunks sequentially]]\<newline>\<newline>''
     @ ''[[Answer questions ONLY from the provided content and tell user if other content is needed.]]\<newline>\<newline>''
     @ ''Questions:\<newline>''
     @ concat (map (\<lambda>(idx, question). ''  Q'' @ show_nat (idx + 1) @ '': '' @ question @ ''\<newline>'')
                   (enumerate 0 allTopics))
     @ ''\<newline>''"

text \<open>The text whose length the packer counts for a chunk, and for the header of a topic.\<close>

definition chunkFormatted :: "scoredChunk \<Rightarrow> string" where
  "chunkFormatted chunk =
     ''[[chunk '' @ show_nat (chunkNumber chunk) @ '']] (score: ''
     @ (case relevanceScore chunk of
          Some (Num s) \<Rightarrow> toFixed1 s
        | Some NaN \<Rightarrow> ''NaN''
        | None \<Rightarrow> ''?'')
     @ '')\<newline>'' @ content chunk @ ''\<newline>\<newline>''"

definition topicHeaderText :: "nat \<Rightarrow> topicResult \<Rightarrow> string" where
  "topicHeaderText topicIndex tr =
     ''\<newline>[[topic '' @ show_nat (topicIndex + 1) @ '': '' @ topicResult.topicQuestion tr
     @ '']]\<newline>\<newline>''"

text \<open>The body of the loop \<open>for (const chunk of sortedChunks)\<close>.\<close>

definition packChunk ::
  "nat \<Rightarrow> nat \<Rightarrow> topicResult \<Rightarrow> nat \<Rightarrow> scoredChunk \<Rightarrow> packState \<times> topicSection
     \<Rightarrow> packState \<times> topicSection" where
  "packChunk maxCharsPerSuperChunk headerChars tr topicHeaderChars chunk acc =
     (case acc of (st, currentTopicSection) \<Rightarrow>
        let chunkChars = length (chunkFormatted chunk);
            requiredSpace = chunkChars
              + (if length (topicSection.chunks currentTopicSection) = 0 then topicHeaderChars else 0);
            headerSpace = (if isFirstSuperChunk st then headerChars else 0);
            totalIfAdded = headerSpace + currentChars st + requiredSpace
        in if totalIfAdded > maxCharsPerSuperChunk
              \<and> (length (currentTopics st) > 0 \<or> length (topicSection.chunks currentTopicSection) > 0)
           then
             let closedTopics = (if length (topicSection.chunks currentTopicSection) > 0
                                 then currentTopics st @ [currentTopicSection]
                                 else currentTopics st);
                 closed = \<lparr>topics = closedTopics,
                           totalChars = currentChars st + headerSpace,
                           isFirst = isFirstSuperChunk st\<rparr>
             in (\<lparr>superChunks = superChunks st @ [closed],
                  currentChars = topicHeaderChars + chunkChars,
                  currentTopics = [],
                  isFirstSuperChunk = False\<rparr>,
                 \<lparr>topicId = topicResult.topicId tr,
                  topicQuestion = topicResult.topicQuestion tr,
                  chunks = [chunk],
                  isContinuation = True\<rparr>)
           else
             (st\<lparr>currentChars := currentChars st
                    + (if length (topicSection.chunks currentTopicSection) = 0 then topicHeaderChars else 0)
                    + chunkChars\<rparr>,
              currentTopicSection\<lparr>chunks := topicSection.chunks currentTopicSection @ [chunk]\<rparr>))"

text \<open>The body of the loop over \<open>topicResults\<close>, for the topic at \<open>topicIndex\<close>.\<close>

definition packTopic :: "nat \<Rightarrow> nat \<Rightarrow> nat \<times> topicResult \<Rightarrow> packState \<Rightarrow> packState" where
  "packTopic maxCharsPerSuperChunk headerChars indexed st =
     (case indexed of (topicIndex, tr) \<Rightarrow>
        if length (topicResult.chunks tr) = 0 then st
        else
          let sortedChunks = sortChunksChronologically (topicResult.chunks tr);
              section0 = \<lparr>topicId = topicResult.topicId tr,
                          topicQuestion = topicResult.topicQuestion tr,
                          chunks = [],
                          isContinuation = False\<rparr>;
              topicHeaderChars = length (topicHeaderText topicIndex tr)
          in case fold (packChunk maxCharsPerSuperChunk headerChars tr topicHeaderChars)
                    sortedChunks (st, section0) of
               (st', currentTopicSection) \<Rightarrow>
                 if length (topicSection.chunks currentTopicSection) > 0
                 then st'\<lparr>currentTopics := currentTopics st' @ [currentTopicSection]\<rparr>
                 else st')"

definition createSuperChunksWithTopics :: "topicResult list \<Rightarrow> nat \<Rightarrow> string list \<Rightarrow> superChunk list" where
  "createSuperChunksWithTopics topicResults maxCharsPerSuperChunk allTopics =
     (let headerChars = length (formatChatPackageHeader allTopics);
          st = fold (packTopic maxCharsPerSuperChunk headerChars) (enumerate 0 topicResults)
                 \<lparr>superChunks = [], currentChars = 0, currentTopics = [], isFirstSuperChunk = True\<rparr>
      in if length (currentTopics st) > 0
         then superChunks st
              @ [\<lparr>topics = currentTopics st,
                  totalChars = currentChars st + (if isFirstSuperChunk st then headerChars else 0),
                  isFirst = isFirstSuperChunk st\<rparr>]
         else superChunks st)"

subsection \<open>Formatting\<close>

text \<open>
  One topic section as \<open>formatSuperChunkContent\<close> writes it. The storage call
  \<open>window.InvantiaDB.getDocument(id)\<close> is the parameter \<open>getDocument\<close>, answering the
  document's name. Reading the first chunk of an empty section, or the name of a missing
  document, throws; that is \<^const>\<open>None\<close>. A score that is absent, 0 or \<open>NaN\<close> is not
  written.
\<close>

definition formatChunk :: "scoredChunk \<Rightarrow> string" where
  "formatChunk chunk =
     ''[[chunk '' @ show_nat (chunkNumber chunk) @ '']]''
     @ (case relevanceScore chunk of
          Some (Num s) \<Rightarrow> if s \<noteq> 0 then '' (score: '' @ toFixed1 s @ '')'' else ''''
        | Some NaN \<Rightarrow> ''''
        | None \<Rightarrow> '''')
     @ ''\<newline>'' @ content chunk @ ''\<newline>\<newline>''"

definition formatTopicSection :: "(nat \<Rightarrow> string option) \<Rightarrow> topicSection \<Rightarrow> string option" where
  "formatTopicSection getDocument sec =
     (let continuationMarker = (if isContinuation sec then '' (continued)'' else '''')
      in case topicSection.chunks sec of
           [] \<Rightarrow> None
         | firstChunk # _ \<Rightarrow>
             (case getDocument (documentId firstChunk) of
                None \<Rightarrow> None
              | Some name \<Rightarrow>
                  Some (''[[topic: '' @ topicSection.topicQuestion sec @ continuationMarker @ '']]\<newline>\<newline>''
                        @ ''[[document: '' @ name @ '']]\<newline>\<newline>''
                        @ concat (map formatChunk (topicSection.chunks sec)))))"

definition formatSuperChunkContent ::
  "(nat \<Rightarrow> string option) \<Rightarrow> superChunk \<Rightarrow> nat \<Rightarrow> nat \<Rightarrow> string list option \<Rightarrow> string option" where
  "formatSuperChunkContent getDocument sc superChunkNumber totalSuperChunks allTopics =
     (case those (map (formatTopicSection getDocument) (topics sc)) of
        None \<Rightarrow> None
      | Some sections \<Rightarrow>
          Some ((case allTopics of
                   Some ts \<Rightarrow> if isFirst sc then formatChatPackageHeader ts else ''''
                 | None \<Rightarrow> '''')
                @ ''[[super chunk '' @ show_nat superChunkNumber @ '' of '' @ show_nat totalSuperChunks
                @ '']]\<newline>''
                @ (if superChunkNumber > 1 then ''[[continued from previous super chunk]]\<newline>'' else '''')
                @ ''\<newline>''
                @ concat sections
                @ ''[[/super chunk '' @ show_nat superChunkNumber @ '']]\<newline>''
                @ (if superChunkNumber = totalSuperChunks then ''\<newline>[[/chat package]]'' else '''')))"

text \<open>\<open>formatSuperChunks\<close>: the rendered text of each super chunk, the header only with the first.\<close>

definition formatSuperChunks :: "(nat \<Rightarrow> string option) \<Rightarrow> superChunk list \<Rightarrow> string list \<Rightarrow> string list option" where
  "formatSuperChunks getDocument scs allTopics =
     those (map (\<lambda>(i, sc).
                   formatSuperChunkContent getDocument sc (i + 1) (length scs)
                     (if i = 0 then Some allTopics else None))
                (enumerate 0 scs))"

section \<open>Auxiliary notions for the proofs\<close>

text \<open>The count a vector holds for a term, 0 when the term is absent (used in the proofs).\<close>

definition weight :: "vec \<Rightarrow> string \<Rightarrow> real" where
  "weight v t = (case map_of v t of Some c \<Rightarrow> real c | None \<Rightarrow> 0)"

text \<open>The keys of the row a matrix holds for a term, and the window of a center index.\<close>

definition rowKeys :: "(string \<times> vec) list \<Rightarrow> string \<Rightarrow> string set" where
  "rowKeys m T = (case map_of m T of None \<Rightarrow> {} | Some v \<Rightarrow> dom (map_of v))"

definition windowOf :: "config \<Rightarrow> nat \<Rightarrow> nat \<Rightarrow> nat list" where
  "windowOf cfg n i = [i - windowSize cfg ..< Suc (min (n - 1) (i + windowSize cfg))]"

text \<open>The list \<open>similarities\<close> of \<open>findSimilarTerms\<close> before it is sorted.\<close>

definition candidates :: "config \<Rightarrow> string \<Rightarrow> vec \<Rightarrow> (string \<times> vec) list \<Rightarrow> (string \<times> real) list" where
  "candidates cfg queryTerm queryVector m =
     concat (map (\<lambda>(term, termVector).
                     if term = queryTerm then []
                     else
                       let similarity = cosineSimilarity_double (Some queryVector) (Some termVector)
                       in if similarity \<ge> minSimilarity cfg then [(term, similarity)] else [])
                   m)"

text \<open>
  Two sample indices: the index built from \<open>fuel pump fuel pump\<close>, in which \<open>pump\<close> and
  \<open>fuel pump\<close> have the same similarity to \<open>fuel\<close>, and an index with no terms.
\<close>

definition pumpIndex :: coOccurrenceData where
  "pumpIndex = buildCoOccurrenceMatrix CONFIG ''fuel pump fuel pump''"

definition emptyIndex :: coOccurrenceData where
  "emptyIndex = \<lparr>matrix = [], termFrequencies = [], totalTerms = 0\<rparr>"


text \<open>Occurrences of a term in a content: where it starts, and the list of its offsets.\<close>


definition occursAt :: "string \<Rightarrow> string \<Rightarrow> nat \<Rightarrow> bool" where
  "occursAt c t = (\<lambda>k. prefix t (drop k c))"

definition occurrence_offsets :: "string \<Rightarrow> string \<Rightarrow> nat list" where
  "occurrence_offsets c t = filter (\<lambda>k. take (length t) (drop k c) = t \<and> k + length t \<le> length c) [0 ..< Suc (length c)]"


text \<open>
  The hybrid score as specified, for a concept \<open>cpt\<close> and a chunk content \<open>C\<close>, with the
  arithmetic of doubles. A term matches when its lower-cased form is a substring of the
  lower-cased content; it is original when its metadata says so or \<open>originalTerms\<close> lists
  it; a term without metadata has similarity 0.5, unless it names a member of
  \<open>Object.prototype\<close>, which has none. The matching terms are taken as \<open>terms\<close> lists them,
  a term that is listed twice counting twice.
\<close>

definition is_original :: "concept \<Rightarrow> string \<Rightarrow> bool" where
  "is_original cpt T =
     ((case termMetadata cpt T of Some m \<Rightarrow> isOriginal m | None \<Rightarrow> False) \<or> T \<in> set (originalTerms cpt))"

definition term_similarity :: "concept \<Rightarrow> string \<Rightarrow> number" where
  "term_similarity cpt T =
     (case termMetadata cpt T of
        Some m \<Rightarrow> similarity m
      | None \<Rightarrow> if T \<in> set objectPrototypeProperties then NaN else Num (1 / 2))"

definition semantic_part :: "concept \<Rightarrow> string \<Rightarrow> number" where
  "semantic_part cpt T =
     (if js_ge (term_similarity cpt T) (Num (fl (7 / 10))) then js_mul (Num 30) (term_similarity cpt T)
      else js_mul (js_mul (Num 30) (term_similarity cpt T)) (Num (1 / 2)))"

definition term_matches :: "string \<Rightarrow> string \<Rightarrow> bool" where
  "term_matches C T = sublist (toLowerCase T) (toLowerCase C)"

definition matching_terms :: "concept \<Rightarrow> string \<Rightarrow> string list" where
  "matching_terms cpt C = filter (term_matches C) (terms cpt)"

definition all_offsets :: "concept \<Rightarrow> string \<Rightarrow> nat list" where
  "all_offsets cpt C =
     sort (concat (map (\<lambda>T. occurrence_offsets (toLowerCase C) (toLowerCase T))
                       (matching_terms cpt C)))"

definition adjacent_gaps :: "nat list \<Rightarrow> nat set" where
  "adjacent_gaps xs = {xs ! (i + 1) - xs ! i | i. i + 1 < length xs}"

text \<open>The sum of a list of numbers as a loop of \<open>+=\<close> computes it, from 0 and from the left.\<close>

definition js_sum :: "number list \<Rightarrow> number" where
  "js_sum xs = foldl js_add (Num 0) xs"

definition specified_original :: "concept \<Rightarrow> string \<Rightarrow> number" where
  "specified_original cpt C =
     js_sum (map (\<lambda>T. Num 100) (filter (is_original cpt) (matching_terms cpt C)))"

definition specified_semantic :: "concept \<Rightarrow> string \<Rightarrow> number" where
  "specified_semantic cpt C =
     js_sum (map (semantic_part cpt) (filter (\<lambda>T. \<not> is_original cpt T) (matching_terms cpt C)))"

definition specified_proximity :: "concept \<Rightarrow> string \<Rightarrow> number" where
  "specified_proximity cpt C =
     (if 2 \<le> length (matching_terms cpt C) then
        let d = Min (adjacent_gaps (all_offsets cpt C))
        in if d \<le> 200 then Num (fl (50 * fl (1 - fl (real d / 200)))) else Num 0
      else Num 0)"


text \<open>
  Sample inputs: two original terms ten characters apart; the concept that
  \<open>convertToSearchFormat\<close> builds for the question \<open>fuel fuel\<close>, with a chunk holding the
  word once; and two chunks of equal score.
\<close>

definition gpsConcept :: concept where
  "gpsConcept = \<lparr>terms = [''configure'', ''gps''], originalTerms = [''configure'', ''gps''],
     termMetadata = [''configure'' \<mapsto> \<lparr>similarity = Num 1, isOriginal = True\<rparr>,
                     ''gps'' \<mapsto> \<lparr>similarity = Num 1, isOriginal = True\<rparr>]\<rparr>"

definition gpsChunk :: chunk where
  "gpsChunk = \<lparr>chunk_id = 1, documentId = 1, chunkNumber = 0, content = ''configure GPS now''\<rparr>"


definition repeatedConcept :: concept where
  "repeatedConcept = \<lparr>terms = [''fuel'', ''fuel''], originalTerms = [''fuel'', ''fuel''],
     termMetadata = Map.empty\<rparr>"

definition fuelOnlyChunk :: chunk where
  "fuelOnlyChunk = \<lparr>chunk_id = 1, documentId = 1, chunkNumber = 0, content = ''fuel''\<rparr>"

text \<open>
  Two expanded terms with the similarities \<open>0.71\<close> and \<open>0.58\<close> (as doubles), and a term that
  names a member of \<open>Object.prototype\<close> and has no metadata.
\<close>

definition valveConcept :: concept where
  "valveConcept = \<lparr>terms = [''pump'', ''valve''], originalTerms = [],
     termMetadata = [''pump'' \<mapsto> \<lparr>similarity = Num (799388933858263 / 1125899906842624), isOriginal = False\<rparr>,
                     ''valve'' \<mapsto> \<lparr>similarity = Num (5224175567749775 / 9007199254740992), isOriginal = False\<rparr>]\<rparr>"

definition valveChunk :: chunk where
  "valveChunk = \<lparr>chunk_id = 1, documentId = 1, chunkNumber = 0, content = ''pump valve''\<rparr>"

definition constructorConcept :: concept where
  "constructorConcept = \<lparr>terms = [''constructor''], originalTerms = [], termMetadata = Map.empty\<rparr>"

definition constructorChunk :: chunk where
  "constructorChunk = \<lparr>chunk_id = 1, documentId = 1, chunkNumber = 0, content = ''the constructor''\<rparr>"

definition fuelConcept :: concept where
  "fuelConcept = \<lparr>terms = [''fuel''], originalTerms = [''fuel''],
     termMetadata = [''fuel'' \<mapsto> \<lparr>similarity = Num 1, isOriginal = True\<rparr>]\<rparr>"

definition fuelBlock :: block where
  "fuelBlock = \<lparr>block.topicId = 1, block.topicQuestion = ''fuel'', spatialCategory = ''auto'',
     inclusionConcepts = [fuelConcept]\<rparr>"

definition fuelChunks :: "chunk list" where
  "fuelChunks = [\<lparr>chunk_id = 7, documentId = 2, chunkNumber = 0, content = ''fuel line''\<rparr>,
                 \<lparr>chunk_id = 3, documentId = 1, chunkNumber = 0, content = ''fuel pump''\<rparr>]"


text \<open>
  Chronological order of a chunk list (strictly ascending \<open>(documentId, chunkNumber)\<close>), of
  the sections of a super chunk, and of everything the packing loop has built so far.
\<close>

definition chronological :: "scoredChunk list \<Rightarrow> bool" where
  "chronological cs = sorted_wrt (\<lambda>a b. chronoKey a < chronoKey b) cs"

definition sections_chronological :: "topicSection list \<Rightarrow> bool" where
  "sections_chronological secs = (\<forall>sec \<in> set secs. chronological (topicSection.chunks sec))"

definition pack_invariant :: "packState \<Rightarrow> bool" where
  "pack_invariant st =
     ((\<forall>sc \<in> set (superChunks st). sections_chronological (topics sc))
      \<and> sections_chronological (currentTopics st))"


text \<open>
  A sample topic: two chunks of one document, ranked out of chronological order, and the
  section the packer makes of them.
\<close>

definition pumpChunk :: scoredChunk where
  "pumpChunk = \<lparr>chunk_id = 1, documentId = 1, chunkNumber = 0, content = ''fuel pump'',
                 relevanceScore = Some (Num 100), scoreDetails = None\<rparr>"

definition lineChunk :: scoredChunk where
  "lineChunk = \<lparr>chunk_id = 2, documentId = 1, chunkNumber = 1, content = ''fuel line'',
                 relevanceScore = Some (Num 100), scoreDetails = None\<rparr>"

definition fuelTopic :: topicResult where
  "fuelTopic = \<lparr>topicResult.topicId = 1, topicResult.topicQuestion = ''fuel'',
                 topicResult.chunks = [lineChunk, pumpChunk], totalMatches = 2\<rparr>"

definition fuelSection :: topicSection where
  "fuelSection = \<lparr>topicId = 1, topicQuestion = ''fuel'', chunks = [pumpChunk, lineChunk],
                   isContinuation = False\<rparr>"

definition manualName :: "nat \<Rightarrow> string option" where
  "manualName d = (if d = 1 then Some ''manual.txt'' else None)"


text \<open>A sample vector: three terms, each counted once.\<close>

definition threeTerms :: vec where
  "threeTerms = [(''fuel'', 1), (''pump'', 1), (''line'', 1)]"


text \<open>The product a pair of the first vector adds to the dot product, as a natural number.\<close>

definition pairCount :: "vec \<Rightarrow> string \<times> nat \<Rightarrow> nat" where
  "pairCount vec2 p = (case map_of vec2 (fst p) of Some count2 \<Rightarrow> snd p * count2 | None \<Rightarrow> 0)"

section \<open>Rounding to doubles\<close>

lemma round_even_of_int: "round_even (of_int m) = m"
  by (simp add: round_even_def Let_def)

lemma round_even_near:
  assumes "of_int n - 1 / 2 < q" "q < of_int n + 1 / 2"
  shows "round_even q = n"
proof (cases "of_int n \<le> q")
  case True
  then have "\<lfloor>q\<rfloor> = n" using assms(2) by (simp add: floor_eq_iff)
  then show ?thesis using assms(2) by (simp add: round_even_def Let_def)
next
  case False
  then have f: "\<lfloor>q\<rfloor> = n - 1" using assms(1) by (simp add: floor_eq_iff)
  have "\<not> q - of_int (n - 1) < 1 / 2" "q - of_int (n - 1) > 1 / 2" using assms(1) by simp_all
  then show ?thesis by (simp add: round_even_def Let_def f)
qed

lemma round_even_nonneg: "0 \<le> q \<Longrightarrow> 0 \<le> round_even q"
  by (simp add: round_even_def Let_def)

lemma round_even_lower: "q - 1 / 2 \<le> of_int (round_even q)"
proof -
  have a: "of_int \<lfloor>q\<rfloor> \<le> q" "q < of_int \<lfloor>q\<rfloor> + 1" by linarith+
  have b: "\<lfloor>q\<rfloor> \<le> round_even q" by (simp add: round_even_def Let_def)
  then have c: "of_int \<lfloor>q\<rfloor> \<le> (of_int (round_even q) :: real)" by (simp only: of_int_le_iff)
  consider "q - of_int \<lfloor>q\<rfloor> \<le> 1 / 2" | "q - of_int \<lfloor>q\<rfloor> > 1 / 2" by linarith
  then show ?thesis
  proof cases
    case 1
    then show ?thesis using c by linarith
  next
    case 2
    then have "round_even q = \<lfloor>q\<rfloor> + 1" by (simp add: round_even_def Let_def)
    then have "(of_int (round_even q) :: real) = of_int \<lfloor>q\<rfloor> + 1" by simp
    then show ?thesis using a by linarith
  qed
qed

lemma round_even_le:
  assumes "q \<le> of_int n"
  shows "round_even q \<le> n"
proof (cases "q = of_int n")
  case True
  then show ?thesis by (simp add: round_even_of_int)
next
  case False
  then have "q < of_int n" using assms by simp
  then have "\<lfloor>q\<rfloor> < n" by (simp add: floor_less_iff)
  then have "\<lfloor>q\<rfloor> + 1 \<le> n" by simp
  moreover have "round_even q \<le> \<lfloor>q\<rfloor> + 1" by (simp add: round_even_def Let_def)
  ultimately show ?thesis by linarith
qed

text \<open>The binade is the integer part of the binary logarithm.\<close>

lemma binade_bounds: "0 < x \<Longrightarrow> 2 powi (binade x) \<le> x \<and> x < 2 powi (binade x + 1)"
proof (induction x rule: binade.induct)
  case (1 x)
  consider (lt) "x < 1" | (ge) "2 \<le> x" | (mid) "1 \<le> x" "x < 2" by linarith
  then show ?case
  proof cases
    case lt
    then have b: "binade x = binade (2 * x) - 1" using 1(3) by (subst binade.simps) simp
    have ih: "2 powi (binade (2 * x)) \<le> 2 * x \<and> 2 * x < 2 powi (binade (2 * x) + 1)"
      using 1(1) 1(3) lt by simp
    have e1: "(2::real) powi (binade (2 * x)) = 2 * 2 powi (binade (2 * x) - 1)"
      by (simp add: power_int_diff)
    have e2: "(2::real) powi (binade (2 * x) + 1) = 2 * 2 powi (binade (2 * x))"
      by (simp add: power_int_add)
    show ?thesis unfolding b using ih e1 e2 by simp
  next
    case ge
    then have b: "binade x = binade (x / 2) + 1" using 1(3) by (subst binade.simps) simp
    have ih: "2 powi (binade (x / 2)) \<le> x / 2 \<and> x / 2 < 2 powi (binade (x / 2) + 1)"
      using 1(2) 1(3) ge by simp
    have e1: "(2::real) powi (binade (x / 2) + 1) = 2 * 2 powi (binade (x / 2))"
      by (simp add: power_int_add)
    have e2: "(2::real) powi (binade (x / 2) + 1 + 1) = 2 * 2 powi (binade (x / 2) + 1)"
      by (simp add: power_int_add)
    show ?thesis unfolding b using ih e1 e2 by simp
  next
    case mid
    then have b: "binade x = 0" by (subst binade.simps) simp
    show ?thesis unfolding b using mid by simp
  qed
qed

lemma floor_log2_eq:
  assumes "0 < x" "2 powi k \<le> x" "x < 2 powi (k + 1)"
  shows "\<lfloor>log 2 x\<rfloor> = k"
proof -
  have p: "(2::real) powr (of_int j) = 2 powi j" for j
    by (simp add: powr_real_of_int')
  have "(2::real) powr (of_int k + 1) = 2 powr (of_int (k + 1))" by simp
  then have "2 powr (of_int k) \<le> x" "x < 2 powr (of_int k + 1)"
    using assms(2,3) p[of k] p[of "k + 1"] by simp_all
  then show ?thesis using assms(1) by (simp add: floor_log_eq_powr_iff)
qed

lemma binade_floor_log: "0 < x \<Longrightarrow> binade x = \<lfloor>log 2 x\<rfloor>"
  using binade_bounds[of x] floor_log2_eq[of x "binade x"] by simp

lemma binade_eq:
  assumes "0 < x" "2 powi k \<le> x" "x < 2 powi (k + 1)"
  shows "binade x = k"
  using binade_floor_log[OF assms(1)] floor_log2_eq[OF assms] by simp

lemma fl_floor_log:
  "fl x =
     (if x = 0 then 0
      else let e = \<lfloor>log 2 \<bar>x\<bar>\<rfloor> - 52
           in of_int (round_even (x / 2 powi e)) * 2 powi e)"
  by (simp add: fl_def binade_floor_log)

lemma fl_exponent:
  assumes "0 < x"
  defines "k \<equiv> binade x"
  shows "2 powi k \<le> x" "x < 2 powi (k + 1)"
    "fl x = of_int (round_even (x / 2 powi (k - 52))) * 2 powi (k - 52)"
proof -
  show "2 powi k \<le> x" "x < 2 powi (k + 1)"
    using binade_bounds[OF assms(1)] by (simp_all add: k_def)
  show "fl x = of_int (round_even (x / 2 powi (k - 52))) * 2 powi (k - 52)"
    using assms(1) by (simp add: fl_def Let_def k_def)
qed

text \<open>Evaluating \<open>fl\<close> at a given positive real, from its binade and the nearest integer.\<close>

lemma fl_eval:
  assumes "0 < x" "2 powi k \<le> x" "x < 2 powi (k + 1)"
    and "of_int n - 1 / 2 < x / 2 powi (k - 52)" "x / 2 powi (k - 52) < of_int n + 1 / 2"
  shows "fl x = of_int n * 2 powi (k - 52)"
proof -
  have "binade \<bar>x\<bar> - 52 = k - 52"
    using binade_eq[OF assms(1,2,3)] assms(1) by simp
  then show ?thesis
    using assms(1) round_even_near[OF assms(4,5)] by (simp add: fl_def Let_def)
qed

text \<open>The same when the real lies halfway between two doubles: \<open>round_even\<close> is computed.\<close>

lemma fl_binade:
  assumes "0 < x" "2 powi k \<le> x" "x < 2 powi (k + 1)"
  shows "fl x = of_int (round_even (x / 2 powi (k - 52))) * 2 powi (k - 52)"
proof -
  have "binade \<bar>x\<bar> - 52 = k - 52"
    using binade_eq[OF assms] assms(1) by simp
  then show ?thesis using assms(1) by (simp add: fl_def Let_def)
qed

lemma fl_near:
  assumes "0 < x" "2 powr (of_int k) \<le> x" "x < 2 powr (of_int k + 1)"
    and "of_int n - 1 / 2 < x / 2 powi (k - 52)" "x / 2 powi (k - 52) < of_int n + 1 / 2"
  shows "fl x = of_int n * 2 powi (k - 52)"
proof -
  have "\<lfloor>log 2 x\<rfloor> = k"
    using assms(1,2,3) by (simp add: floor_log_eq_powr_iff)
  then have "\<lfloor>log 2 \<bar>x\<bar>\<rfloor> - 52 = k - 52" using assms(1) by simp
  then show ?thesis
    using assms(1) round_even_near[OF assms(4,5)] by (simp add: fl_floor_log Let_def)
qed

text \<open>Integers up to \<open>2\<^sup>5\<^sup>3\<close> are doubles.\<close>

lemma fl_of_nat:
  assumes "n \<le> 2 ^ 53"
  shows "fl (real n) = real n"
proof (cases "n = 0")
  case True
  then show ?thesis by (simp add: fl_def)
next
  case False
  define k where "k = \<lfloor>log 2 (real n)\<rfloor>"
  have pos: "0 < real n" using False by simp
  have kb: "2 powr (of_int k) \<le> real n" "real n < 2 powr (of_int k + 1)"
    using floor_log_eq_powr_iff[of "real n" 2 k] pos by (simp_all add: k_def)
  have k0: "0 \<le> k" using False by (simp add: k_def)
  have k53: "k \<le> 53"
  proof (rule ccontr)
    assume "\<not> k \<le> 53"
    then have "54 \<le> k" by simp
    then have "(2::real) powr 54 \<le> 2 powr (of_int k)" by (intro powr_mono) simp_all
    then have "(2::real) ^ 54 \<le> real n" using kb(1) by simp
    moreover have "real n \<le> 2 ^ 53" using assms by (metis of_nat_le_iff of_nat_numeral of_nat_power)
    ultimately show False by simp
  qed
  have exact: "\<exists>m. real n / 2 powi (k - 52) = of_int m"
  proof (cases "k \<le> 52")
    case True
    then have "real n / 2 powi (k - 52) = real n * 2 ^ nat (52 - k)"
      by (simp add: power_int_def field_simps)
    also have "\<dots> = of_int (int n * 2 ^ nat (52 - k))" by simp
    finally show ?thesis by blast
  next
    case False
    then have k: "k = 53" using k53 by simp
    have "(2::real) ^ 53 \<le> real n" using kb(1) k by simp
    moreover have "real n \<le> 2 ^ 53" using assms by (metis of_nat_le_iff of_nat_numeral of_nat_power)
    ultimately have "real n = 2 ^ 53" by simp
    then have "real n / 2 powi (k - 52) = of_int (2 ^ 52)" by (simp add: k)
    then show ?thesis by blast
  qed
  then obtain m where m: "real n / 2 powi (k - 52) = of_int m" by blast
  have "fl (real n) = of_int (round_even (real n / 2 powi (k - 52))) * 2 powi (k - 52)"
    using False by (simp add: fl_floor_log Let_def k_def)
  also have "\<dots> = real n / 2 powi (k - 52) * 2 powi (k - 52)"
    by (simp add: m round_even_of_int)
  also have "\<dots> = real n" by simp
  finally show ?thesis .
qed

lemma fl_numeral: "numeral w \<le> (2::nat) ^ 53 \<Longrightarrow> fl (numeral w) = numeral w"
  using fl_of_nat[of "numeral w"] by simp

lemma fl_0: "fl 0 = 0"
  by (simp add: fl_def)

lemma fl_1: "fl 1 = 1"
  using fl_of_nat[of 1] by simp

lemma fl_2: "fl 2 = 2"
  using fl_of_nat[of 2] by simp

lemma fl_3: "fl 3 = 3"
  using fl_of_nat[of 3] by simp

lemma fl_half: "fl (1 / 2) = 1 / 2"
  using fl_eval[of "1 / 2" "- 1" 4503599627370496] by (simp add: power_int_minus)

text \<open>The doubles that the literals \<open>0.3\<close> and \<open>0.7\<close> of the source denote.\<close>

lemma fl_three_tenths: "fl (3 / 10) = 5404319552844595 / 18014398509481984"
  using fl_eval[of "3 / 10" "- 2" 5404319552844595] by (simp add: power_int_minus)

lemma fl_seven_tenths: "fl (7 / 10) = 3152519739159347 / 4503599627370496"
  using fl_eval[of "7 / 10" "- 1" 6305039478318694] by (simp add: power_int_minus)

lemma minSimilarity_double: "minSimilarity CONFIG = 5404319552844595 / 18014398509481984"
  by (simp add: CONFIG_def fl_three_tenths)

lemma highSimilarityThreshold_double: "highSimilarityThreshold SCORING_CONFIG = fl (7 / 10)"
  by (simp add: SCORING_CONFIG_def)

lemma fl_nonneg: "0 \<le> x \<Longrightarrow> 0 \<le> fl x"
  by (simp add: fl_def Let_def round_even_nonneg)

text \<open>
  The relative error of rounding is at most \<open>2\<^sup>-\<^sup>5\<^sup>3\<close>, and rounding does not cross a
  double: here the doubles 1 and \<open>1 + 2\<^sup>-\<^sup>5\<^sup>1\<close>.
\<close>

lemma fl_lower:
  assumes "0 < x"
  shows "x * (1 - 1 / 2 ^ 53) \<le> fl x"
proof -
  define k where "k = binade x"
  note e = fl_exponent[OF assms, folded k_def]
  have pos: "(0::real) < 2 powi (k - 52)" by simp
  have "x / 2 powi (k - 52) - 1 / 2 \<le> of_int (round_even (x / 2 powi (k - 52)))"
    by (rule round_even_lower)
  then have "(x / 2 powi (k - 52) - 1 / 2) * 2 powi (k - 52) \<le> fl x"
    unfolding e(3) using pos by (simp only: mult_le_cancel_right_pos)
  then have a: "x - 2 powi (k - 52) / 2 \<le> fl x" by (simp add: algebra_simps)
  have "(2::real) powi (k - 52) = 2 powi k / 2 ^ 52"
    by (simp add: power_int_diff)
  then have "(2::real) powi (k - 52) / 2 \<le> x / 2 ^ 53" using e(1) by (simp add: field_simps)
  then show ?thesis using a by (simp add: algebra_simps)
qed

lemma round_even_upper: "of_int (round_even q) \<le> q + 1 / 2"
proof -
  have a: "of_int \<lfloor>q\<rfloor> \<le> q" by linarith
  consider "q - of_int \<lfloor>q\<rfloor> < 1 / 2" | "q - of_int \<lfloor>q\<rfloor> \<ge> 1 / 2" by linarith
  then show ?thesis
  proof cases
    case 1
    then have "round_even q = \<lfloor>q\<rfloor>" by (simp add: round_even_def Let_def)
    then have "(of_int (round_even q) :: real) = of_int \<lfloor>q\<rfloor>" by simp
    then show ?thesis using a by linarith
  next
    case 2
    have "round_even q \<le> \<lfloor>q\<rfloor> + 1" by (simp add: round_even_def Let_def)
    then have "(of_int (round_even q) :: real) \<le> of_int (\<lfloor>q\<rfloor> + 1)" by (simp only: of_int_le_iff)
    then show ?thesis using 2 by simp
  qed
qed

lemma fl_upper:
  assumes "0 \<le> x"
  shows "fl x \<le> x * (1 + 1 / 2 ^ 53)"
proof (cases "x = 0")
  case True
  then show ?thesis by (simp add: fl_0)
next
  case False
  then have pos: "0 < x" using assms by simp
  define k where "k = binade x"
  note e = fl_exponent[OF pos, folded k_def]
  have p: "(0::real) < 2 powi (k - 52)" by simp
  have "of_int (round_even (x / 2 powi (k - 52))) \<le> x / 2 powi (k - 52) + 1 / 2"
    by (rule round_even_upper)
  then have "fl x \<le> (x / 2 powi (k - 52) + 1 / 2) * 2 powi (k - 52)"
    unfolding e(3) using p by (simp only: mult_le_cancel_right_pos)
  then have a: "fl x \<le> x + 2 powi (k - 52) / 2" by (simp add: algebra_simps)
  have "(2::real) powi (k - 52) = 2 powi k / 2 ^ 52"
    by (simp add: power_int_diff)
  then have "(2::real) powi (k - 52) / 2 \<le> x / 2 ^ 53" using e(1) by (simp add: field_simps)
  then show ?thesis using a by (simp add: algebra_simps)
qed

lemma fl_lower0: "0 \<le> x \<Longrightarrow> x * (1 - 1 / 2 ^ 53) \<le> fl x"
  using fl_lower[of x] by (cases "x = 0") (simp_all add: fl_0)

lemma fl_pos: "0 < x \<Longrightarrow> 0 < fl x"
proof -
  assume p: "0 < x"
  then have "0 < x * (1 - 1 / 2 ^ 53)" by simp
  then show ?thesis using fl_lower[OF p] by linarith
qed

lemma fl_upper_near_one:
  assumes "0 < y" "y \<le> 1 + 1 / 2 ^ 51"
  shows "fl y \<le> 1 + 1 / 2 ^ 51"
proof -
  define k where "k = binade y"
  note e = fl_exponent[OF assms(1), folded k_def]
  have k0: "k \<le> 0"
  proof (rule ccontr)
    assume "\<not> k \<le> 0"
    then have "1 \<le> k" by simp
    then have "(2::real) powi 1 \<le> 2 powi k" by (intro power_int_increasing) simp_all
    then show False using e(1) assms(2) by simp
  qed
  show ?thesis
  proof (cases "k = 0")
    case True
    have "y / 2 powi (k - 52) \<le> of_int (2 ^ 52 + 2)"
      using assms(2) by (simp add: True power_int_minus field_simps)
    then have "round_even (y / 2 powi (k - 52)) \<le> 2 ^ 52 + 2" by (rule round_even_le)
    then have "(of_int (round_even (y / 2 powi (k - 52))) :: real) \<le> of_int (2 ^ 52 + 2)"
      by (simp only: of_int_le_iff)
    then show ?thesis unfolding e(3) by (simp add: True power_int_minus field_simps)
  next
    case False
    then have k1: "k + 1 \<le> 0" using k0 by simp
    have pos: "(0::real) < 2 powi (k - 52)" by simp
    have "(2::real) powi (k + 1) = 2 powi (k - 52) * 2 ^ 53"
      by (simp add: power_int_add power_int_diff)
    then have "y / 2 powi (k - 52) \<le> of_int (2 ^ 53)"
      using e(2) pos by (simp add: field_simps)
    then have "round_even (y / 2 powi (k - 52)) \<le> 2 ^ 53" by (rule round_even_le)
    then have "(of_int (round_even (y / 2 powi (k - 52))) :: real) \<le> 2 ^ 53"
      by (metis of_int_le_iff of_int_numeral of_int_power)
    then have "fl y \<le> 2 ^ 53 * 2 powi (k - 52)"
      unfolding e(3) using pos by (simp only: mult_le_cancel_right_pos)
    also have "\<dots> = 2 powi (k + 1)"
      by (simp add: power_int_add power_int_diff)
    also have "\<dots> \<le> 2 powi 0" using k1 by (intro power_int_increasing) simp_all
    finally show ?thesis by simp
  qed
qed


text \<open>The bisection finds the integer square root, and \<open>sqrt_double\<close> is the rounded square root.\<close>

lemma isqrt_between_correct:
  "0 \<le> lo \<Longrightarrow> lo * lo \<le> n \<Longrightarrow> n < hi * hi \<Longrightarrow> 0 \<le> hi \<Longrightarrow>
   0 \<le> isqrt_between n lo hi \<and> isqrt_between n lo hi * isqrt_between n lo hi \<le> n
   \<and> n < (isqrt_between n lo hi + 1) * (isqrt_between n lo hi + 1)"
proof (induction n lo hi rule: isqrt_between.induct)
  case (1 n lo hi)
  show ?case
  proof (cases "hi \<le> lo + 1")
    case True
    then have r: "isqrt_between n lo hi = lo" by (subst isqrt_between.simps) simp
    have "hi * hi \<le> (lo + 1) * (lo + 1)" using True 1(6) 1(3) by (intro mult_mono) simp_all
    then show ?thesis unfolding r using 1(3,4,5) by linarith
  next
    case False
    define mid where "mid = (lo + hi) div 2"
    have m0: "0 \<le> mid" using 1(3) 1(6) by (simp add: mid_def)
    show ?thesis
    proof (cases "mid * mid \<le> n")
      case True
      have r: "isqrt_between n lo hi = isqrt_between n mid hi"
        using False True by (subst isqrt_between.simps) (simp add: mid_def Let_def)
      have "0 \<le> isqrt_between n mid hi \<and> isqrt_between n mid hi * isqrt_between n mid hi \<le> n
          \<and> n < (isqrt_between n mid hi + 1) * (isqrt_between n mid hi + 1)"
        using 1(1)[of mid] False True m0 1(5) 1(6) by (simp add: mid_def)
      then show ?thesis unfolding r .
    next
      case F2: False
      have r: "isqrt_between n lo hi = isqrt_between n lo mid"
        using False F2 by (subst isqrt_between.simps) (simp add: mid_def Let_def)
      have "0 \<le> isqrt_between n lo mid \<and> isqrt_between n lo mid * isqrt_between n lo mid \<le> n
          \<and> n < (isqrt_between n lo mid + 1) * (isqrt_between n lo mid + 1)"
        using 1(2)[of mid] False F2 m0 1(3) 1(4) by (simp add: mid_def)
      then show ?thesis unfolding r .
    qed
  qed
qed

lemma isqrt_correct:
  "0 \<le> n \<Longrightarrow> 0 \<le> isqrt n \<and> isqrt n * isqrt n \<le> n \<and> n < (isqrt n + 1) * (isqrt n + 1)"
proof -
  assume n: "0 \<le> n"
  have "0 \<le> n * n" using n by simp
  moreover have "(n + 1) * (n + 1) = n * n + 2 * n + 1" by (simp add: algebra_simps)
  ultimately have "n < (n + 1) * (n + 1)" using n by linarith
  then show ?thesis unfolding isqrt_def using n by (intro isqrt_between_correct) simp_all
qed

lemma floor_sqrt_isqrt:
  assumes "0 \<le> y"
  shows "\<lfloor>sqrt y\<rfloor> = isqrt \<lfloor>y\<rfloor>"
proof -
  define m where "m = \<lfloor>y\<rfloor>"
  define r where "r = isqrt m"
  have m0: "0 \<le> m" using assms by (simp add: m_def)
  from isqrt_correct[OF m0] have r: "0 \<le> r" "r * r \<le> m" "m < (r + 1) * (r + 1)"
    by (simp_all add: r_def)
  have my: "of_int m \<le> y" "y < of_int m + 1" unfolding m_def by linarith+
  have "of_int (r * r) \<le> (of_int m :: real)" using r(2) by (simp only: of_int_le_iff)
  then have lo: "(of_int r)\<^sup>2 \<le> y" using my(1) by (simp add: power2_eq_square)
  have "m + 1 \<le> (r + 1) * (r + 1)" using r(3) by simp
  then have "(of_int (m + 1) :: real) \<le> of_int ((r + 1) * (r + 1))" by (simp only: of_int_le_iff)
  then have hi: "y < (of_int r + 1)\<^sup>2" using my(2) by (simp add: power2_eq_square)
  have "of_int r \<le> sqrt y" using lo r(1) by (intro real_le_rsqrt)
  moreover have "sqrt y < of_int r + 1" using hi r(1) by (intro real_less_lsqrt) simp_all
  ultimately have "\<lfloor>sqrt y\<rfloor> = r" by linarith
  then show ?thesis by (simp add: r_def m_def)
qed

lemma round_even_sqrt:
  assumes "0 \<le> y"
  shows "round_even (sqrt y) =
     (let n = isqrt \<lfloor>y\<rfloor>; h = (of_int n + 1 / 2)\<^sup>2
      in if y < h then n else if h < y then n + 1 else if even n then n else n + 1)"
proof -
  define n where "n = isqrt \<lfloor>y\<rfloor>"
  have fl: "\<lfloor>sqrt y\<rfloor> = n" unfolding n_def by (rule floor_sqrt_isqrt[OF assms])
  have n0: "0 \<le> n" using isqrt_correct[of "\<lfloor>y\<rfloor>"] assms by (simp add: n_def)
  have hp: "(0::real) \<le> of_int n + 1 / 2" using n0 by simp
  have a: "sqrt y - of_int n < 1 / 2 \<longleftrightarrow> y < (of_int n + 1 / 2)\<^sup>2"
  proof
    assume "sqrt y - of_int n < 1 / 2"
    then have "sqrt y < of_int n + 1 / 2" by simp
    then have "(sqrt y)\<^sup>2 < (of_int n + 1 / 2)\<^sup>2"
      by (intro power_strict_mono) (simp_all add: assms)
    then show "y < (of_int n + 1 / 2)\<^sup>2" using assms by simp
  next
    assume "y < (of_int n + 1 / 2)\<^sup>2"
    then have "sqrt y < of_int n + 1 / 2" using hp by (intro real_less_lsqrt) simp_all
    then show "sqrt y - of_int n < 1 / 2" by simp
  qed
  have b: "sqrt y - of_int n > 1 / 2 \<longleftrightarrow> (of_int n + 1 / 2)\<^sup>2 < y"
  proof
    assume "sqrt y - of_int n > 1 / 2"
    then have "of_int n + 1 / 2 < sqrt y" by simp
    then have "(of_int n + 1 / 2)\<^sup>2 < (sqrt y)\<^sup>2" using hp by (intro power_strict_mono) simp_all
    then show "(of_int n + 1 / 2)\<^sup>2 < y" using assms by simp
  next
    assume "(of_int n + 1 / 2)\<^sup>2 < y"
    then have "of_int n + 1 / 2 < sqrt y" using hp by (intro real_less_rsqrt) simp_all
    then show "sqrt y - of_int n > 1 / 2" by simp
  qed
  show ?thesis
    unfolding round_even_def Let_def fl n_def[symmetric] a b by simp
qed

lemma sqrt_power_int_even: "sqrt (2 powi (2 * j)) = 2 powi j"
proof (rule real_sqrt_unique)
  show "((2::real) powi j)\<^sup>2 = 2 powi (2 * j)"
    by (simp add: power2_eq_square power_int_add[symmetric])
  show "(0::real) \<le> 2 powi j" by simp
qed

lemma sqrt_double_correct:
  assumes "0 \<le> x"
  shows "sqrt_double x = fl (sqrt x)"
proof (cases "x = 0")
  case True
  then show ?thesis by (simp add: sqrt_double_def fl_def)
next
  case False
  then have pos: "0 < x" using assms by simp
  define k where "k = binade x"
  define j where "j = k div 2"
  define e where "e = j - 52"
  define y where "y = x / 2 powi (2 * e)"
  have kb: "2 powi k \<le> x" "x < 2 powi (k + 1)"
    using binade_bounds[OF pos] by (simp_all add: k_def)
  have j1: "2 * j \<le> k" and j2: "k + 1 \<le> 2 * j + 2" unfolding j_def by linarith+
  have "(2::real) powi (2 * j) \<le> 2 powi k" using j1 by (intro power_int_increasing) simp_all
  then have lo: "2 powi (2 * j) \<le> x" using kb(1) by linarith
  have "(2::real) powi (k + 1) \<le> 2 powi (2 * j + 2)" using j2 by (intro power_int_increasing) simp_all
  then have "x < 2 powi (2 * (j + 1))" using kb(2) by (simp add: algebra_simps)
  then have "sqrt x < sqrt (2 powi (2 * (j + 1)))" by (simp only: real_sqrt_less_iff)
  then have shi: "sqrt x < 2 powi (j + 1)" by (simp only: sqrt_power_int_even)
  have "sqrt (2 powi (2 * j)) \<le> sqrt x" using lo by (simp only: real_sqrt_le_iff)
  then have slo: "2 powi j \<le> sqrt x" by (simp only: sqrt_power_int_even)
  have spos: "0 < sqrt x" using pos by simp
  have f: "fl (sqrt x) = of_int (round_even (sqrt x / 2 powi e)) * 2 powi e"
    unfolding e_def by (rule fl_binade[OF spos slo shi])
  have q: "sqrt x / 2 powi e = sqrt y"
    unfolding y_def by (simp only: real_sqrt_divide sqrt_power_int_even)
  have y0: "0 \<le> y" using pos by (simp add: y_def)
  have "sqrt_double x =
      of_int (let n = isqrt \<lfloor>y\<rfloor>; h = (of_int n + 1 / 2)\<^sup>2
              in if y < h then n else if h < y then n + 1 else if even n then n else n + 1) * 2 powi e"
    using pos by (simp add: sqrt_double_def Let_def k_def j_def e_def y_def)
  also have "\<dots> = of_int (round_even (sqrt y)) * 2 powi e"
    by (simp only: round_even_sqrt[OF y0])
  finally show ?thesis by (simp only: f q)
qed

section \<open>Properties of the similarity engine\<close>


lemma fold_add_sum_list:
  "fold (\<lambda>x acc. acc + f x) xs (a::real) = a + sum_list (map f xs)"
  by (induction xs arbitrary: a) (simp_all add: algebra_simps)


lemma dotProduct_sum_list:
  "dotProduct vec1 vec2 = (\<Sum>p\<leftarrow>vec1. real (snd p) * weight vec2 (fst p))"
proof -
  have "(\<lambda>(term, count1) acc. (case map_of vec2 term of Some count2 \<Rightarrow> acc + real count1 * real count2 | None \<Rightarrow> acc))
      = (\<lambda>p acc. acc + real (snd p) * weight vec2 (fst p))"
    by (auto simp: fun_eq_iff weight_def split: option.splits)
  then show ?thesis
    by (simp add: dotProduct_def fold_add_sum_list)
qed

lemma sumSquares_sum_list: "sumSquares v = (\<Sum>p\<leftarrow>v. real (snd p) * real (snd p))"
proof -
  have "fold (\<lambda>(term, count) acc. acc + real count * real count) v a = a + (\<Sum>p\<leftarrow>v. real (snd p) * real (snd p))" for a
    by (induction v arbitrary: a) (auto simp: algebra_simps)
  then show ?thesis by (simp add: sumSquares_def)
qed

lemma weight_distinct: "distinct (map fst v) \<Longrightarrow> p \<in> set v \<Longrightarrow> weight v (fst p) = real (snd p)"
  by (cases p) (simp add: weight_def)

lemma weight_notin: "t \<notin> fst ` set v \<Longrightarrow> weight v t = 0"
  by (simp add: weight_def map_of_eq_None_iff[THEN iffD2])

lemma sum_list_keys:
  assumes "distinct (map fst v)"
  shows "(\<Sum>p\<leftarrow>v. g (fst p) * weight v (fst p)) = (\<Sum>t\<in>fst ` set v. g t * weight v t)"
proof -
  have d: "distinct v" using assms by (simp add: distinct_map)
  have inj: "inj_on fst (set v)" using assms by (simp add: distinct_map)
  have "(\<Sum>p\<leftarrow>v. g (fst p) * weight v (fst p)) = (\<Sum>p\<in>set v. g (fst p) * weight v (fst p))"
    using d by (simp add: sum_list_distinct_conv_sum_set)
  also have "\<dots> = (\<Sum>t\<in>fst ` set v. g t * weight v t)"
    using inj by (simp add: sum.reindex)
  finally show ?thesis .
qed

lemma dotProduct_keys:
  assumes "distinct (map fst vec1)"
  shows "dotProduct vec1 vec2 = (\<Sum>t\<in>fst ` set vec1. weight vec1 t * weight vec2 t)"
proof -
  have "dotProduct vec1 vec2 = (\<Sum>p\<leftarrow>vec1. weight vec2 (fst p) * weight vec1 (fst p))"
    unfolding dotProduct_sum_list
    by (rule arg_cong[where f=sum_list], rule map_cong[OF refl]) (simp add: weight_distinct[OF assms] mult.commute)
  also have "\<dots> = (\<Sum>t\<in>fst ` set vec1. weight vec2 t * weight vec1 t)"
    by (rule sum_list_keys[OF assms])
  finally show ?thesis by (simp add: mult.commute)
qed

lemma dotProduct_inter:
  assumes "distinct (map fst vec1)"
  shows "dotProduct vec1 vec2 = (\<Sum>t\<in>fst ` set vec1 \<inter> fst ` set vec2. weight vec1 t * weight vec2 t)"
proof -
  have "(\<Sum>t\<in>fst ` set vec1. weight vec1 t * weight vec2 t)
      = (\<Sum>t\<in>fst ` set vec1 \<inter> fst ` set vec2. weight vec1 t * weight vec2 t)"
    by (rule sum.mono_neutral_right) (auto simp: weight_notin)
  then show ?thesis by (simp add: dotProduct_keys[OF assms])
qed

lemma dotProduct_commute:
  assumes "distinct (map fst vec1)" "distinct (map fst vec2)"
  shows "dotProduct vec1 vec2 = dotProduct vec2 vec1"
  by (simp add: dotProduct_inter assms Int_commute mult.commute)

section \<open>Sums of counts in doubles\<close>

text \<open>While the partial sums stay below \<open>2\<^sup>5\<^sup>3\<close>, the rounded loops compute the exact sums.\<close>

lemma fold_double_exact:
  fixes fd :: "'a \<Rightarrow> real \<Rightarrow> real" and g :: "'a \<Rightarrow> nat"
  assumes step: "\<And>p a. a + g p \<le> 2 ^ 53 \<Longrightarrow> fd p (real a) = real (a + g p)"
    and bound: "a + sum_list (map g xs) \<le> 2 ^ 53"
  shows "fold fd xs (real a) = real (a + sum_list (map g xs))"
  using bound
proof (induction xs arbitrary: a)
  case Nil
  show ?case by simp
next
  case (Cons p xs)
  have b: "a + g p \<le> 2 ^ 53" using Cons.prems by simp
  have "fold fd (p # xs) (real a) = fold fd xs (real (a + g p))" by (simp add: step[OF b])
  also have "\<dots> = real (a + g p + sum_list (map g xs))"
    using Cons.prems by (intro Cons.IH) (simp add: add.assoc)
  finally show ?case by (simp add: add.assoc)
qed

lemma real_sum_list: "real (sum_list (map f xs)) = (\<Sum>x\<leftarrow>xs. real (f x))"
  by (induction xs) auto

lemma dotProduct_pairCount: "dotProduct vec1 vec2 = real (sum_list (map (pairCount vec2) vec1))"
proof -
  have "real (snd p) * weight vec2 (fst p) = real (pairCount vec2 p)" for p
    by (simp add: weight_def pairCount_def split: option.splits)
  then show ?thesis by (simp add: dotProduct_sum_list real_sum_list)
qed

lemma sumSquares_nat: "sumSquares v = real (sum_list (map (\<lambda>p. snd p * snd p) v))"
  by (simp add: sumSquares_sum_list real_sum_list)

lemma dotProduct_double_exact:
  assumes "dotProduct vec1 vec2 \<le> 2 ^ 53"
  shows "dotProduct_double vec1 vec2 = dotProduct vec1 vec2"
proof -
  have b: "0 + sum_list (map (pairCount vec2) vec1) \<le> 2 ^ 53"
    using assms unfolding dotProduct_pairCount
    by (metis add_0 of_nat_le_iff of_nat_numeral of_nat_power)
  have "fold (\<lambda>(term, count1) acc.
             (case map_of vec2 term of
                Some count2 \<Rightarrow> fl (acc + fl (real count1 * real count2))
              | None \<Rightarrow> acc)) vec1 (real 0)
        = real (0 + sum_list (map (pairCount vec2) vec1))"
  proof (rule fold_double_exact[OF _ b])
    fix p :: "string \<times> nat" and a :: nat
    assume le: "a + pairCount vec2 p \<le> 2 ^ 53"
    obtain t c1 where p: "p = (t, c1)" by (cases p)
    show "(case p of (term, count1) \<Rightarrow> \<lambda>acc.
             (case map_of vec2 term of
                Some count2 \<Rightarrow> fl (acc + fl (real count1 * real count2))
              | None \<Rightarrow> acc)) (real a) = real (a + pairCount vec2 p)"
    proof (cases "map_of vec2 t")
      case None
      then show ?thesis by (simp add: p pairCount_def)
    next
      case (Some c2)
      have le1: "c1 * c2 \<le> 2 ^ 53" and le2: "a + c1 * c2 \<le> 2 ^ 53"
        using le Some by (simp_all add: p pairCount_def)
      have f1: "fl (real c1 * real c2) = real c1 * real c2" using fl_of_nat[OF le1] by simp
      have f2: "fl (real a + real c1 * real c2) = real a + real c1 * real c2"
        using fl_of_nat[OF le2] by simp
      show ?thesis using Some by (simp add: p pairCount_def f1 f2)
    qed
  qed
  then show ?thesis by (simp add: dotProduct_double_def dotProduct_pairCount)
qed

lemma sumSquares_double_exact:
  assumes "sumSquares v \<le> 2 ^ 53"
  shows "sumSquares_double v = sumSquares v"
proof -
  have b: "0 + sum_list (map (\<lambda>p. snd p * snd p) v) \<le> 2 ^ 53"
    using assms unfolding sumSquares_nat
    by (metis add_0 of_nat_le_iff of_nat_numeral of_nat_power)
  have "fold (\<lambda>(term, count) acc. fl (acc + fl (real count * real count))) v (real 0)
        = real (0 + sum_list (map (\<lambda>p. snd p * snd p) v))"
  proof (rule fold_double_exact[OF _ b])
    fix p :: "string \<times> nat" and a :: nat
    assume le: "a + snd p * snd p \<le> 2 ^ 53"
    obtain t c where p: "p = (t, c)" by (cases p)
    have le1: "c * c \<le> 2 ^ 53" and le2: "a + c * c \<le> 2 ^ 53" using le by (simp_all add: p)
    have f1: "fl (real c * real c) = real c * real c" using fl_of_nat[OF le1] by simp
    have f2: "fl (real a + real c * real c) = real a + real c * real c"
      using fl_of_nat[OF le2] by simp
    show "(case p of (term, count) \<Rightarrow> \<lambda>acc. fl (acc + fl (real count * real count))) (real a)
        = real (a + snd p * snd p)" by (simp add: p f1 f2)
  qed
  then show ?thesis by (simp add: sumSquares_double_def sumSquares_nat)
qed


text \<open>The sums are not negative, so the square roots are those of \<open>Math.sqrt\<close>.\<close>

lemma fold_nonneg:
  fixes f :: "'a \<Rightarrow> real \<Rightarrow> real"
  assumes "\<And>p acc. 0 \<le> acc \<Longrightarrow> 0 \<le> f p acc" "0 \<le> a"
  shows "0 \<le> fold f xs a"
  using assms(2)
proof (induction xs arbitrary: a)
  case Nil
  then show ?case by simp
next
  case (Cons x xs)
  have "0 \<le> f x a" using Cons.prems by (rule assms(1))
  then have "0 \<le> fold f xs (f x a)" by (rule Cons.IH)
  then show ?case by simp
qed

lemma dotProduct_double_nonneg: "0 \<le> dotProduct_double vec1 vec2"
  unfolding dotProduct_double_def
proof (rule fold_nonneg)
  fix p :: "string \<times> nat" and acc :: real
  assume a: "0 \<le> acc"
  obtain t c where p: "p = (t, c)" by (cases p)
  show "0 \<le> (case p of (term, count1) \<Rightarrow> \<lambda>acc.
             (case map_of vec2 term of
                Some count2 \<Rightarrow> fl (acc + fl (real count1 * real count2))
              | None \<Rightarrow> acc)) acc"
  proof (cases "map_of vec2 t")
    case None
    then show ?thesis using a p by simp
  next
    case (Some c2)
    have "0 \<le> fl (acc + fl (real c * real c2))"
      by (intro fl_nonneg add_nonneg_nonneg a) simp
    then show ?thesis using Some p by simp
  qed
qed simp

lemma sumSquares_double_nonneg: "0 \<le> sumSquares_double v"
  unfolding sumSquares_double_def
proof (rule fold_nonneg)
  fix p :: "string \<times> nat" and acc :: real
  assume a: "0 \<le> acc"
  obtain t c where p: "p = (t, c)" by (cases p)
  have "0 \<le> fl (acc + fl (real c * real c))"
    by (intro fl_nonneg add_nonneg_nonneg a) simp
  then show "0 \<le> (case p of (term, count) \<Rightarrow> \<lambda>acc. fl (acc + fl (real count * real count))) acc"
    using p by simp
qed simp

lemma cosineSimilarity_double_fl:
  "cosineSimilarity_double v1 v2 =
     (case (v1, v2) of
        (Some vec1, Some vec2) \<Rightarrow>
          if length vec1 = 0 \<or> length vec2 = 0 then 0
          else
            let dp = dotProduct_double vec1 vec2;
                mag1 = fl (sqrt (sumSquares_double vec1));
                mag2 = fl (sqrt (sumSquares_double vec2))
            in if mag1 = 0 \<or> mag2 = 0 then 0 else fl (dp / fl (mag1 * mag2))
      | _ \<Rightarrow> 0)"
  by (simp add: cosineSimilarity_double_def sqrt_double_correct sumSquares_double_nonneg
        split: option.splits)

section \<open>Properties of the co-occurrence matrix\<close>


lemma map_of_increment:
  "map_of (increment k v) = (map_of v)(k \<mapsto> (case map_of v k of Some c \<Rightarrow> c | None \<Rightarrow> 0) + 1)"
  by (simp add: increment_def update_conv')

lemma dom_increment: "dom (map_of (increment k v)) = insert k (dom (map_of v))"
  by (simp add: map_of_increment)

lemma dom_windowLoop:
  "dom (map_of (windowLoop seq i js v)) = dom (map_of v) \<union> {seq ! j | j. j \<in> set js \<and> j \<noteq> i}"
  unfolding windowLoop_def
proof (induction js arbitrary: v)
  case Nil
  show ?case by simp
next
  case (Cons j js)
  show ?case by (simp add: Cons.IH dom_increment) blast
qed

lemma map_of_centerStep:
  "map_of (centerStep cfg seq i m) =
     (map_of m)(seq ! i \<mapsto>
        windowLoop seq i (windowOf cfg (length seq) i)
          (case map_of m (seq ! i) of Some v \<Rightarrow> v | None \<Rightarrow> []))"
  by (auto simp: centerStep_def Let_def update_conv' windowOf_def fun_eq_iff)

lemma rowKeys_centerStep:
  "rowKeys (centerStep cfg seq i m) T =
     rowKeys m T \<union> (if seq ! i = T
        then {seq ! j | j. j \<in> set (windowOf cfg (length seq) i) \<and> j \<noteq> i} else {})"
  by (auto simp: rowKeys_def map_of_centerStep dom_windowLoop split: option.splits)

lemma rowKeys_fold:
  "rowKeys (fold (centerStep cfg seq) is m) T =
     rowKeys m T \<union> {seq ! j | i j. i \<in> set is \<and> seq ! i = T
                                 \<and> j \<in> set (windowOf cfg (length seq) i) \<and> j \<noteq> i}"
proof (induction "is" arbitrary: m)
  case Nil
  show ?case by simp
next
  case (Cons i "is")
  show ?case
    by (simp add: Cons.IH rowKeys_centerStep) blast
qed

lemma rowKeys_slidingWindow:
  "rowKeys (slidingWindow cfg seq) T =
     {seq ! j | i j. i < length seq \<and> seq ! i = T
                     \<and> j \<in> set (windowOf cfg (length seq) i) \<and> j \<noteq> i}"
proof -
  have "rowKeys [] T = {}" by (simp add: rowKeys_def)
  then show ?thesis by (simp add: slidingWindow_def rowKeys_fold)
qed

lemma in_windowOf:
  "i < n \<Longrightarrow> j \<in> set (windowOf cfg n i) \<longleftrightarrow> j < n \<and> i \<le> j + windowSize cfg \<and> j \<le> i + windowSize cfg"
  by (auto simp: windowOf_def)

lemma matrix_build: "matrix (buildCoOccurrenceMatrix cfg text) = slidingWindow cfg (validTermsOf cfg text)"
  by (simp add: buildCoOccurrenceMatrix_def validTermsOf_def Let_def)


lemma fuel_line_matrix:
  "map_of (matrix (buildCoOccurrenceMatrix CONFIG ''Check the fuel pump and the fuel line'')) ''fuel''
     = Some [(''fuel'', 2)]"
  by code_simp

lemma fuel_line_validTerms:
  "validTermsOf CONFIG ''Check the fuel pump and the fuel line'' = [''fuel'', ''fuel'']"
  by code_simp

text \<open>
  C5, as stated, fails: in the index built from \<open>Check the fuel pump and the fuel line\<close>
  the row of \<open>fuel\<close> has an entry for \<open>fuel\<close> itself, with count 2.
\<close>

theorem self_count_counterexample:
  "(case map_of (matrix (buildCoOccurrenceMatrix CONFIG ''Check the fuel pump and the fuel line'')) ''fuel''
      of Some v \<Rightarrow> map_of v ''fuel'' | None \<Rightarrow> None) = Some 2"
  by (simp add: fuel_line_matrix)

text \<open>
  C5 (amended): only the center position is skipped. For every text and every key \<open>T\<close> of
  the matrix, the row of \<open>T\<close> has an entry for \<open>T\<close> itself exactly when \<open>T\<close> stands at two
  different positions of the frequency-filtered sequence that are at most \<open>windowSize\<close>
  apart.
\<close>

theorem self_count_iff_repeated_in_window:
  assumes "map_of (matrix (buildCoOccurrenceMatrix cfg text)) T = Some v"
  shows "(map_of v T \<noteq> None) \<longleftrightarrow>
           (\<exists>i j. i < length (validTermsOf cfg text) \<and> j < length (validTermsOf cfg text)
                \<and> i \<noteq> j \<and> i \<le> j + windowSize cfg \<and> j \<le> i + windowSize cfg
                \<and> validTermsOf cfg text ! i = T \<and> validTermsOf cfg text ! j = T)"
proof -
  let ?seq = "validTermsOf cfg text"
  have "(map_of v T \<noteq> None) \<longleftrightarrow> T \<in> rowKeys (slidingWindow cfg ?seq) T"
    using assms by (auto simp: rowKeys_def matrix_build)
  also have "\<dots> \<longleftrightarrow> (\<exists>i j. i < length ?seq \<and> ?seq ! i = T \<and> j \<in> set (windowOf cfg (length ?seq) i) \<and> j \<noteq> i \<and> ?seq ! j = T)"
    unfolding rowKeys_slidingWindow by (auto intro: sym)
  also have "\<dots> \<longleftrightarrow> (\<exists>i j. i < length ?seq \<and> j < length ?seq
                \<and> i \<noteq> j \<and> i \<le> j + windowSize cfg \<and> j \<le> i + windowSize cfg
                \<and> ?seq ! i = T \<and> ?seq ! j = T)"
  proof -
    have "(i < length ?seq \<and> ?seq ! i = T \<and> j \<in> set (windowOf cfg (length ?seq) i) \<and> j \<noteq> i \<and> ?seq ! j = T)
        \<longleftrightarrow> (i < length ?seq \<and> j < length ?seq
                \<and> i \<noteq> j \<and> i \<le> j + windowSize cfg \<and> j \<le> i + windowSize cfg
                \<and> ?seq ! i = T \<and> ?seq ! j = T)" for i j
      using in_windowOf[of i "length ?seq" j cfg] by (cases "i < length ?seq") auto
    then show ?thesis by simp
  qed
  finally show ?thesis .
qed


theorem self_count_iff_repeated_in_window_witness:
  "map_of (matrix (buildCoOccurrenceMatrix CONFIG ''Check the fuel pump and the fuel line'')) ''fuel''
     = Some [(''fuel'', 2)]
   \<and> (\<exists>i j. i < length (validTermsOf CONFIG ''Check the fuel pump and the fuel line'')
           \<and> j < length (validTermsOf CONFIG ''Check the fuel pump and the fuel line'')
           \<and> i \<noteq> j \<and> i \<le> j + windowSize CONFIG \<and> j \<le> i + windowSize CONFIG
           \<and> validTermsOf CONFIG ''Check the fuel pump and the fuel line'' ! i = ''fuel''
           \<and> validTermsOf CONFIG ''Check the fuel pump and the fuel line'' ! j = ''fuel'')"
  using self_count_iff_repeated_in_window [OF fuel_line_matrix] fuel_line_matrix
  by simp

lemma tokenize_from_maxTerms:
  "tokenize_from (cfg\<lparr>maxTerms := m\<rparr>) inp s = tokenize_from cfg inp s"
proof (induction cfg inp s rule: tokenize_from.induct)
  case (1 cfg inp s)
  show ?case
    by (subst (1 2) tokenize_from.simps) (auto simp: 1 Let_def split: option.splits)
qed

lemma buildCoOccurrenceMatrix_maxTerms:
  "buildCoOccurrenceMatrix (cfg\<lparr>maxTerms := m\<rparr>) inp = buildCoOccurrenceMatrix cfg inp"
proof -
  have c: "centerStep (cfg\<lparr>maxTerms := m\<rparr>) = centerStep cfg"
    by (simp add: fun_eq_iff centerStep_def)
  show ?thesis
    by (simp add: buildCoOccurrenceMatrix_def tokenize_def tokenize_from_maxTerms
          filterByFrequency_def slidingWindow_def c)
qed

lemma dom_centerStep: "dom (map_of (centerStep cfg seq i m)) = insert (seq ! i) (dom (map_of m))"
  by (simp add: map_of_centerStep)

lemma dom_fold_centerStep:
  "dom (map_of (fold (centerStep cfg seq) is m)) = dom (map_of m) \<union> {seq ! i | i. i \<in> set is}"
proof (induction "is" arbitrary: m)
  case Nil
  show ?case by simp
next
  case (Cons i "is")
  show ?case by (simp add: Cons.IH dom_centerStep) blast
qed

lemma matrix_keys:
  "fst ` set (matrix (buildCoOccurrenceMatrix cfg inp)) = set (validTermsOf cfg inp)"
proof -
  have "fst ` set (slidingWindow cfg seq) = set seq" for seq
  proof -
    have "dom (map_of (slidingWindow cfg seq)) = {seq ! i | i. i < length seq}"
      by (simp add: slidingWindow_def dom_fold_centerStep)
    then show ?thesis by (simp add: dom_map_of_conv_image_fst set_conv_nth)
  qed
  then show ?thesis by (simp add: matrix_build)
qed

text \<open>
  C6: the vocabulary is not capped. \<open>maxTerms\<close> is never read
  (\<open>buildCoOccurrenceMatrix_maxTerms\<close>) and every term that passes the frequency filter is a
  key (\<open>matrix_keys\<close>); with \<open>maxTerms = 2\<close> the text
  \<open>fuel pump fuel pump\<close> yields an index with three keys, each of frequency 2.
\<close>

theorem maxTerms_not_enforced:
  "map fst (matrix (buildCoOccurrenceMatrix (CONFIG\<lparr>maxTerms := 2\<rparr>) ''fuel pump fuel pump''))
     = [''fuel'', ''pump'', ''fuel pump'']
   \<and> termFrequencies (buildCoOccurrenceMatrix (CONFIG\<lparr>maxTerms := 2\<rparr>) ''fuel pump fuel pump'')
     = [(''fuel'', 2), (''pump'', 2), (''fuel pump'', 2), (''pump fuel'', 1),
        (''fuel pump fuel'', 1), (''pump fuel pump'', 1)]"
  by code_simp

section \<open>Properties of the top-K lookup\<close>


lemma candidates_subseq: "subseq (map fst (candidates cfg q qv m)) (map fst m)"
  by (induction m) (auto simp: candidates_def Let_def)

lemma candidates_props:
  "e \<in> set (candidates cfg q qv m) \<Longrightarrow>
     fst e \<noteq> q \<and> minSimilarity cfg \<le> snd e
     \<and> (\<exists>v. (fst e, v) \<in> set m \<and> snd e = cosineSimilarity_double (Some qv) (Some v))"
  by (induction m) (auto simp: candidates_def Let_def split: if_splits)

lemma findSimilarTerms_alt:
  "findSimilarTerms cfg T coData K =
     (case map_of (matrix coData) (toLowerCase T) of None \<Rightarrow> []
      | Some qv \<Rightarrow> take K (sort_key (\<lambda>e. - snd e) (candidates cfg (toLowerCase T) qv (matrix coData))))"
  by (simp add: findSimilarTerms_def candidates_def Let_def split: option.splits)

lemma take_sorted_desc:
  "sorted_wrt (\<lambda>a b. snd b \<le> (snd a :: real)) (take K (sort_key (\<lambda>e. - snd e) xs))"
proof -
  have "sorted (map (\<lambda>e. - snd e) (sort_key (\<lambda>e. - snd e) xs))" by (rule sorted_sort_key)
  then have "sorted_wrt (\<lambda>a b. snd b \<le> (snd a :: real)) (sort_key (\<lambda>e. - snd e) xs)"
    by (simp add: sorted_map)
  then show ?thesis by (rule sorted_wrt_take)
qed

lemma ties_keep_order:
  "subseq (map fst (filter (\<lambda>e. snd e = s) (take K (sort_key (\<lambda>e. - snd e) xs))))
          (map fst (xs :: (string \<times> real) list))"
proof -
  have "prefix (filter (\<lambda>e. snd e = s) (take K (sort_key (\<lambda>e. - snd e) xs)))
               (filter (\<lambda>e. snd e = s) (sort_key (\<lambda>e. - snd e) xs))"
    by (rule filter_mono_prefix) (rule take_is_prefix)
  moreover have "filter (\<lambda>e. snd e = s) (sort_key (\<lambda>e. - snd e) xs) = filter (\<lambda>e. snd e = s) xs"
    using sort_key_stable[of "\<lambda>e. - snd e" "- s" xs] by simp
  ultimately have "subseq (filter (\<lambda>e. snd e = s) (take K (sort_key (\<lambda>e. - snd e) xs))) xs"
    by (metis prefix_imp_subseq subseq_filter_left subseq_order.order_trans)
  then show ?thesis by (rule subseq_map)
qed

lemma pumpIndex_matrix:
  "matrix pumpIndex =
     [(''fuel'', [(''pump'', 4), (''fuel'', 2), (''fuel pump'', 4)]),
      (''pump'', [(''fuel'', 4), (''pump'', 2), (''fuel pump'', 4)]),
      (''fuel pump'', [(''fuel'', 4), (''pump'', 4), (''fuel pump'', 2)])]"
  unfolding pumpIndex_def by code_simp

lemma toLowerCase_fuel: "toLowerCase ''fuel'' = ''fuel''"
  by code_simp

lemma sqrt_36: "sqrt 36 = 6"
  by (rule real_sqrt_unique) simp_all

lemma fl_small: "fl 6 = 6" "fl 36 = 36"
  using fl_of_nat[of 6] fl_of_nat[of 36] by simp_all

lemma fl_eight_ninths: "fl (8 / 9) = 2001599834386887 / 2251799813685248"
  using fl_eval[of "8 / 9" "- 1" 8006399337547548] by (simp add: power_int_minus)

lemma fuel_row_similarity:
  "cosineSimilarity_double (Some [(''pump'', 4), (''fuel'', 2), (''fuel pump'', 4)])
       (Some [(''fuel'', 4), (''pump'', 2), (''fuel pump'', 4)]) = 2001599834386887 / 2251799813685248"
  "cosineSimilarity_double (Some [(''pump'', 4), (''fuel'', 2), (''fuel pump'', 4)])
       (Some [(''fuel'', 4), (''pump'', 4), (''fuel pump'', 2)]) = 2001599834386887 / 2251799813685248"
proof -
  define q :: vec where "q = [(''pump'', 4), (''fuel'', 2), (''fuel pump'', 4)]"
  define u :: vec where "u = [(''fuel'', 4), (''pump'', 2), (''fuel pump'', 4)]"
  define w :: vec where "w = [(''fuel'', 4), (''pump'', 4), (''fuel pump'', 2)]"
  have d: "dotProduct q u = 32" "dotProduct q w = 32"
    by (simp_all add: dotProduct_def q_def u_def w_def)
  have s: "sumSquares q = 36" "sumSquares u = 36" "sumSquares w = 36"
    by (simp_all add: sumSquares_def q_def u_def w_def)
  have dd: "dotProduct_double q u = 32" "dotProduct_double q w = 32"
    using dotProduct_double_exact[of q u] dotProduct_double_exact[of q w] d by simp_all
  have ss: "sumSquares_double q = 36" "sumSquares_double u = 36" "sumSquares_double w = 36"
    using sumSquares_double_exact[of q] sumSquares_double_exact[of u] sumSquares_double_exact[of w] s
    by simp_all
  have len: "length q = 3" "length u = 3" "length w = 3" by (simp_all add: q_def u_def w_def)
  have q32: "(32::real) / 36 = 8 / 9" by simp
  have "cosineSimilarity_double (Some q) (Some u) = 2001599834386887 / 2251799813685248"
    by (simp add: cosineSimilarity_double_fl dd ss len sqrt_36 fl_small q32 fl_eight_ninths Let_def)
  moreover have "cosineSimilarity_double (Some q) (Some w) = 2001599834386887 / 2251799813685248"
    by (simp add: cosineSimilarity_double_fl dd ss len sqrt_36 fl_small q32 fl_eight_ninths Let_def)
  ultimately show
    "cosineSimilarity_double (Some [(''pump'', 4), (''fuel'', 2), (''fuel pump'', 4)])
       (Some [(''fuel'', 4), (''pump'', 2), (''fuel pump'', 4)]) = 2001599834386887 / 2251799813685248"
    "cosineSimilarity_double (Some [(''pump'', 4), (''fuel'', 2), (''fuel pump'', 4)])
       (Some [(''fuel'', 4), (''pump'', 4), (''fuel pump'', 2)]) = 2001599834386887 / 2251799813685248"
    by (simp_all add: q_def u_def w_def)
qed

lemma pumpIndex_result:
  "findSimilarTerms CONFIG ''fuel'' pumpIndex 5
     = [(''pump'', 2001599834386887 / 2251799813685248),
        (''fuel pump'', 2001599834386887 / 2251799813685248)]"
  by (simp add: findSimilarTerms_def pumpIndex_matrix toLowerCase_fuel fuel_row_similarity
        CONFIG_def fl_three_tenths Let_def)

text \<open>
  The threshold is applied to the double. The rows \<open>{a: 1, b: 1}\<close> and
  \<open>{a: 3, c: 5, d: 4}\<close> have the exact similarity \<open>3 / (sqrt 2 * sqrt 50) = 0.3\<close>, but the
  doubles give 0.29999999999999993, which is below the double of \<open>0.3\<close>: such a term is left
  out.
\<close>

lemma sqrt2_double: "fl (sqrt 2) = 6369051672525773 / 4503599627370496"
proof -
  have lo: "(6369051672525773 - 1 / 2) / 4503599627370496 < sqrt 2"
    by (rule real_less_rsqrt) (simp add: power2_eq_square)
  have hi: "sqrt 2 < (6369051672525773 + 1 / 2) / 4503599627370496"
    by (rule real_less_lsqrt) (simp_all add: power2_eq_square)
  have b1: "1 \<le> sqrt 2" by simp
  have b2: "sqrt 2 < 2" by (rule real_less_lsqrt) simp_all
  have p: "0 < sqrt 2" by simp
  show ?thesis
    using fl_eval[of "sqrt 2" 0 6369051672525773] lo hi b1 b2 p
    by (simp add: power_int_minus field_simps)
qed

lemma sqrt50_double: "fl (sqrt 50) = 124395540479019 / 17592186044416"
proof -
  have lo: "(7961314590657216 - 1 / 2) / 1125899906842624 < sqrt 50"
    by (rule real_less_rsqrt) (simp add: power2_eq_square)
  have hi: "sqrt 50 < (7961314590657216 + 1 / 2) / 1125899906842624"
    by (rule real_less_lsqrt) (simp_all add: power2_eq_square)
  have b1: "4 \<le> sqrt 50" by (rule real_le_rsqrt) simp
  have b2: "sqrt 50 < 8" by (rule real_less_lsqrt) simp_all
  have p: "0 < sqrt 50" by simp
  show ?thesis
    using fl_eval[of "sqrt 50" 2 7961314590657216] lo hi b1 b2 p
    by (simp add: power_int_minus field_simps)
qed

lemma fl_magnitudes:
  "fl (6369051672525773 / 4503599627370496 * (124395540479019 / 17592186044416))
     = 5629499534213121 / 562949953421312"
  using fl_eval[of "6369051672525773 / 4503599627370496 * (124395540479019 / 17592186044416)"
          3 5629499534213121]
  by (simp add: power_int_minus)

lemma fl_threshold_quotient:
  "fl (3 / (5629499534213121 / 562949953421312)) = 2702159776422297 / 9007199254740992"
  using fl_eval[of "3 / (5629499534213121 / 562949953421312)" "- 2" 5404319552844594]
  by (simp add: power_int_minus)

lemma similarity_below_threshold:
  "cosineSimilarity_double (Some [(''a'', 1), (''b'', 1)]) (Some [(''a'', 3), (''c'', 5), (''d'', 4)])
     = 2702159776422297 / 9007199254740992"
  "(2702159776422297 / 9007199254740992 :: real) < minSimilarity CONFIG"
  "cosineSimilarity (Some [(''a'', 1), (''b'', 1)]) (Some [(''a'', 3), (''c'', 5), (''d'', 4)]) = 3 / 10"
proof -
  define q :: vec where "q = [(''a'', 1), (''b'', 1)]"
  define u :: vec where "u = [(''a'', 3), (''c'', 5), (''d'', 4)]"
  have d: "dotProduct q u = 3" by (simp add: dotProduct_def q_def u_def)
  have s: "sumSquares q = 2" "sumSquares u = 50" by (simp_all add: sumSquares_def q_def u_def)
  have dd: "dotProduct_double q u = 3" using dotProduct_double_exact[of q u] d by simp
  have ss: "sumSquares_double q = 2" "sumSquares_double u = 50"
    using sumSquares_double_exact[of q] sumSquares_double_exact[of u] s by simp_all
  have len: "length q = 2" "length u = 3" by (simp_all add: q_def u_def)
  define M1 :: real where "M1 = 6369051672525773 / 4503599627370496"
  define M2 :: real where "M2 = 124395540479019 / 17592186044416"
  define P :: real where "P = 5629499534213121 / 562949953421312"
  have m1: "fl (sqrt 2) = M1" by (simp add: sqrt2_double M1_def)
  have m2: "fl (sqrt 50) = M2" by (simp add: sqrt50_double M2_def)
  have pr: "fl (M1 * M2) = P" unfolding M1_def M2_def P_def by (rule fl_magnitudes)
  have qt: "fl (3 / P) = 2702159776422297 / 9007199254740992"
    unfolding P_def by (rule fl_threshold_quotient)
  have nz: "M1 \<noteq> 0" "M2 \<noteq> 0" by (simp_all add: M1_def M2_def)
  have "cosineSimilarity_double (Some q) (Some u) = 2702159776422297 / 9007199254740992"
    by (simp add: cosineSimilarity_double_fl dd ss len m1 m2 pr qt nz Let_def)
  then show "cosineSimilarity_double (Some [(''a'', 1), (''b'', 1)]) (Some [(''a'', 3), (''c'', 5), (''d'', 4)])
     = 2702159776422297 / 9007199254740992"
    by (simp add: q_def u_def)
  show "(2702159776422297 / 9007199254740992 :: real) < minSimilarity CONFIG"
    by (simp add: CONFIG_def fl_three_tenths)
  have "sqrt 2 * sqrt 50 = sqrt 100" by (simp add: real_sqrt_mult[symmetric])
  also have "\<dots> = 10" by (rule real_sqrt_unique) simp_all
  finally have m: "sqrt 2 * sqrt 50 = 10" .
  have "cosineSimilarity (Some q) (Some u) = 3 / 10"
    by (simp add: cosineSimilarity_def d s len m Let_def)
  then show "cosineSimilarity (Some [(''a'', 1), (''b'', 1)]) (Some [(''a'', 3), (''c'', 5), (''d'', 4)]) = 3 / 10"
    by (simp add: q_def u_def)
qed

text \<open>
  C4, as stated, fails on the tie-break: in the index built from \<open>fuel pump fuel pump\<close> the
  terms \<open>pump\<close> and \<open>fuel pump\<close> are equally similar to \<open>fuel\<close> (the double of \<open>8/9\<close>), and
  \<open>pump\<close> is returned first although \<open>fuel pump\<close> is the smaller string.
\<close>

theorem findSimilarTerms_ties_counterexample:
  "findSimilarTerms CONFIG ''fuel'' (buildCoOccurrenceMatrix CONFIG ''fuel pump fuel pump'') 5
     = [(''pump'', 2001599834386887 / 2251799813685248),
        (''fuel pump'', 2001599834386887 / 2251799813685248)]
   \<and> ''fuel pump'' < ''pump''"
  using pumpIndex_result by (simp add: pumpIndex_def less_char_def)

text \<open>
  C4 (amended): for every term \<open>T\<close>, index and \<open>K\<close>, \<open>findSimilarTerms\<close> returns at most
  \<open>K\<close> entries; every returned term is a key of the matrix other than the lower-cased \<open>T\<close>,
  with the similarity that \<open>cosineSimilarity\<close> computes in doubles for its row and the row of
  \<open>T\<close>, which is at least the double of \<open>minSimilarity\<close>; the list is ordered by descending
  similarity; and returned terms of equal similarity keep the order in which the matrix
  holds them (there is no lexicographic tie-break).
\<close>

theorem findSimilarTerms_result:
  fixes cfg T coData K
  defines "r \<equiv> findSimilarTerms cfg T coData K"
  shows "length r \<le> K
       \<and> (\<forall>e \<in> set r. fst e \<noteq> toLowerCase T \<and> minSimilarity cfg \<le> snd e
             \<and> (\<exists>qv v. map_of (matrix coData) (toLowerCase T) = Some qv \<and> (fst e, v) \<in> set (matrix coData)
                  \<and> snd e = cosineSimilarity_double (Some qv) (Some v)))
       \<and> sorted_wrt (\<lambda>a b. snd b \<le> snd a) r
       \<and> (\<forall>s. subseq (map fst (filter (\<lambda>e. snd e = s) r)) (map fst (matrix coData)))"
proof (cases "map_of (matrix coData) (toLowerCase T)")
  case None
  then show ?thesis by (simp add: r_def findSimilarTerms_alt)
next
  case (Some qv)
  let ?c = "candidates cfg (toLowerCase T) qv (matrix coData)"
  have r: "r = take K (sort_key (\<lambda>e. - snd e) ?c)"
    by (simp add: r_def findSimilarTerms_alt Some)
  have len: "length r \<le> K" by (simp add: r)
  have mem: "set r \<subseteq> set ?c"
    using set_take_subset[of K "sort_key (\<lambda>e. - snd e) ?c"] by (simp add: r)
  have each: "\<forall>e \<in> set r. fst e \<noteq> toLowerCase T \<and> minSimilarity cfg \<le> snd e
             \<and> (\<exists>qv v. map_of (matrix coData) (toLowerCase T) = Some qv \<and> (fst e, v) \<in> set (matrix coData)
                  \<and> snd e = cosineSimilarity_double (Some qv) (Some v))"
    using mem candidates_props[of _ cfg "toLowerCase T" qv "matrix coData"] Some by blast
  have srt: "sorted_wrt (\<lambda>a b. snd b \<le> snd a) r"
    unfolding r by (rule take_sorted_desc)
  have ties: "subseq (map fst (filter (\<lambda>e. snd e = s) r)) (map fst (matrix coData))" for s
  proof -
    have "subseq (map fst (filter (\<lambda>e. snd e = s) r)) (map fst ?c)"
      unfolding r by (rule ties_keep_order)
    then show ?thesis
      using candidates_subseq[of cfg "toLowerCase T" qv "matrix coData"]
      by (rule subseq_order.order_trans)
  qed
  show ?thesis using len each srt ties by blast
qed


theorem findSimilarTerms_result_witness:
  "findSimilarTerms CONFIG ''fuel'' pumpIndex 5
     = [(''pump'', 2001599834386887 / 2251799813685248),
        (''fuel pump'', 2001599834386887 / 2251799813685248)]
   \<and> length (findSimilarTerms CONFIG ''fuel'' pumpIndex 5) \<le> 5
   \<and> sorted_wrt (\<lambda>a b. snd b \<le> snd a) (findSimilarTerms CONFIG ''fuel'' pumpIndex 5)
   \<and> subseq (map fst (filter (\<lambda>e. snd e = 2001599834386887 / 2251799813685248)
                             (findSimilarTerms CONFIG ''fuel'' pumpIndex 5)))
        (map fst (matrix pumpIndex))"
  using findSimilarTerms_result [of CONFIG "''fuel''" pumpIndex 5] pumpIndex_result
  by blast

section \<open>Properties of query expansion\<close>


lemma tok_fuel_pump: "tokenize CONFIG ''fuel pump'' =
   [\<lparr>tok_term = ''fuel'', tok_position = 0\<rparr>, \<lparr>tok_term = ''pump'', tok_position = 5\<rparr>]"
  by code_simp

lemma toLowerCase_query_terms: "toLowerCase ''fuel'' = ''fuel''" "toLowerCase ''pump'' = ''pump''" "toLowerCase ''fuel pump'' = ''fuel pump''"
  by code_simp+

lemma expandQuery_no_index: "expandQuery CONFIG (\<lambda>d. None) ''fuel pump'' 1
     = [\<lparr>originalTerm = ''fuel'', expandedTerms = [''fuel''], similarities = [1]\<rparr>,
        \<lparr>originalTerm = ''pump'', expandedTerms = [''pump''], similarities = [1]\<rparr>]"
  by (simp add: expandQuery_def tok_fuel_pump)

lemma expandQuery_empty_index: "expandQuery CONFIG (\<lambda>d. Some emptyIndex) ''fuel pump'' 1
     = [\<lparr>originalTerm = ''fuel'', expandedTerms = [''fuel''], similarities = [1]\<rparr>,
        \<lparr>originalTerm = ''pump'', expandedTerms = [''pump''], similarities = [1]\<rparr>,
        \<lparr>originalTerm = ''fuel pump'', expandedTerms = [''fuel pump''], similarities = [1]\<rparr>]"
  by (simp add: expandQuery_def emptyIndex_def findSimilarTerms_def Let_def tok_fuel_pump extractPhrases_def)


text \<open>
  C8: over a document without a stored index \<open>expandQuery\<close> returns normally, each
  returned term with itself at similarity 1 only; but it returns the unigram tokens alone.
  For \<open>fuel pump\<close> the original term \<open>fuel pump\<close> is missing, which the path for a stored
  index contributes even when the index knows none of the terms.
\<close>

theorem expandQuery_no_index_drops_phrases:
  "expandQuery CONFIG (\<lambda>d. None) ''fuel pump'' 1
     = [\<lparr>originalTerm = ''fuel'', expandedTerms = [''fuel''], similarities = [1]\<rparr>,
        \<lparr>originalTerm = ''pump'', expandedTerms = [''pump''], similarities = [1]\<rparr>]
   \<and> expandQuery CONFIG (\<lambda>d. Some emptyIndex) ''fuel pump'' 1
     = [\<lparr>originalTerm = ''fuel'', expandedTerms = [''fuel''], similarities = [1]\<rparr>,
        \<lparr>originalTerm = ''pump'', expandedTerms = [''pump''], similarities = [1]\<rparr>,
        \<lparr>originalTerm = ''fuel pump'', expandedTerms = [''fuel pump''], similarities = [1]\<rparr>]"
  using expandQuery_no_index expandQuery_empty_index by simp

section \<open>Properties of chunk scoring\<close>
lemma find_upt_None: "find P [i..<n] = None \<longleftrightarrow> (\<forall>k. i \<le> k \<and> k < n \<longrightarrow> \<not> P k)"
  by (auto simp: find_None_iff)

lemma find_upt_Some:
  assumes "find P [i..<n] = Some k"
  shows "i \<le> k \<and> k < n \<and> P k \<and> (\<forall>j. i \<le> j \<and> j < k \<longrightarrow> \<not> P j)"
proof -
  from assms obtain m where m: "m < length [i..<n]" "P ([i..<n] ! m)" "k = [i..<n] ! m"
    "\<forall>j<m. \<not> P ([i..<n] ! j)"
    by (auto simp: find_Some_iff)
  then have k: "k = i + m" "i + m < n" by auto
  have "\<not> P j" if "i \<le> j" "j < k" for j
  proof -
    have "j - i < m" using that k by auto
    then have "\<not> P ([i..<n] ! (j - i))" using m(4) by blast
    moreover have "[i..<n] ! (j - i) = j" using that k by auto
    ultimately show ?thesis by simp
  qed
  then show ?thesis using m k by auto
qed

lemma filter_upt_first:
  assumes "i \<le> k" "k < n" "P k" "\<forall>j. i \<le> j \<and> j < k \<longrightarrow> \<not> P j"
  shows "filter P [i..<n] = k # filter P [Suc k..<n]"
proof -
  have "[i..<n] = [i..<k] @ k # [Suc k..<n]"
  proof -
    have "[i..<n] = [i..<k] @ [k..<n]"
      using assms(1,2) upt_add_eq_append[of i k "n - k"] by simp
    then show ?thesis using assms(2) by (simp add: upt_conv_Cons)
  qed
  moreover have "filter P [i..<k] = []" using assms(4) by (auto simp: filter_empty_conv)
  ultimately show ?thesis using assms(3) by simp
qed

lemma indexOf_notfound:
  "indexOf c t i = - 1 \<longleftrightarrow> filter (occursAt c t) [min i (length c)..<Suc (length c)] = []"
proof -
  have "filter P xs = [] \<longleftrightarrow> find P xs = None" for P and xs :: "nat list"
    by (induction xs) auto
  then show ?thesis
    by (simp add: indexOf_def Let_def occursAt_def del: upt_Suc split: option.splits)
qed

lemma occursAt_nonempty: "t \<noteq> [] \<Longrightarrow> occursAt c t k \<Longrightarrow> k < length c"
  by (cases "k < length c") (auto simp: occursAt_def)

lemma occurrencesLoop_offsets:
  assumes "t \<noteq> []"
  shows "occurrencesLoop c t (indexOf c t i) ps = Some (ps @ filter (occursAt c t) [i..<Suc (length c)])"
proof (induction "Suc (length c) - i" arbitrary: i ps rule: less_induct)
  case less
  let ?n = "Suc (length c)"
  let ?s = "min i (length c)"
  have tail: "filter (occursAt c t) [i..<?n] = filter (occursAt c t) [?s..<?n]"
  proof (cases "i \<le> length c")
    case True
    then show ?thesis by (simp add: min_def)
  next
    case False
    then have "[i..<?n] = []" by simp
    moreover have "filter (occursAt c t) [?s..<?n] = []"
      using False occursAt_nonempty[OF assms, of c "length c"] by (auto simp: min_def)
    ultimately show ?thesis by (simp del: upt_Suc)
  qed
  show ?case
  proof (cases "find (occursAt c t) [?s..<?n]")
    case None
    then have "indexOf c t i = - 1" by (simp add: indexOf_def Let_def occursAt_def del: upt_Suc)
    moreover have "filter (occursAt c t) [?s..<?n] = []"
      using None by (auto simp: filter_empty_conv find_None_iff simp del: upt_Suc)
    ultimately show ?thesis by (subst occurrencesLoop.simps) (simp add: tail del: upt_Suc)
  next
    case (Some k)
    then have idx: "indexOf c t i = int k" by (simp add: indexOf_def Let_def occursAt_def del: upt_Suc)
    from find_upt_Some[OF Some] have k: "?s \<le> k" "k < ?n" "occursAt c t k"
      "\<forall>j. ?s \<le> j \<and> j < k \<longrightarrow> \<not> occursAt c t j" by auto
    have klen: "k < length c" using occursAt_nonempty[OF assms k(3)] .
    then have ik: "i \<le> k" using k(1) by (auto simp: min_def split: if_splits)
    have first: "filter (occursAt c t) [?s..<?n] = k # filter (occursAt c t) [Suc k..<?n]"
      using filter_upt_first[of ?s k ?n "occursAt c t"] k by blast
    have "Suc (length c) - Suc k < Suc (length c) - i" using ik klen by auto
    from less[OF this]
    have IH: "occurrencesLoop c t (indexOf c t (Suc k)) (ps @ [k])
              = Some ((ps @ [k]) @ filter (occursAt c t) [Suc k..<?n])" .
    show ?thesis
      by (subst occurrencesLoop.simps) (simp add: idx IH tail first del: upt_Suc)
  qed
qed

lemma occursAt_iff_take:
  "occursAt c t k \<and> k \<le> length c \<longleftrightarrow> take (length t) (drop k c) = t \<and> k + length t \<le> length c"
proof
  assume a: "occursAt c t k \<and> k \<le> length c"
  then obtain r where r: "drop k c = t @ r" by (auto simp: occursAt_def prefix_def)
  then have "length (drop k c) = length t + length r" by simp
  moreover have "k \<le> length c" using a by simp
  ultimately have "k + length t \<le> length c" by simp
  then show "take (length t) (drop k c) = t \<and> k + length t \<le> length c"
    using r by simp
next
  assume a: "take (length t) (drop k c) = t \<and> k + length t \<le> length c"
  then have "prefix t (drop k c)" by (metis take_is_prefix)
  then show "occursAt c t k \<and> k \<le> length c" using a by (simp add: occursAt_def)
qed

lemma occurrence_offsets_filter:
  "filter (occursAt c t) [0..<Suc (length c)] = occurrence_offsets c t"
  unfolding occurrence_offsets_def
proof (rule filter_cong[OF refl])
  fix k assume "k \<in> set [0..<Suc (length c)]"
  then have "k \<le> length c" by (simp del: upt_Suc)
  then show "occursAt c t k = (take (length t) (drop k c) = t \<and> k + length t \<le> length c)"
    using occursAt_iff_take[of c t k] by simp
qed

lemma occurrencesLoop_term:
  "t \<noteq> [] \<Longrightarrow> occurrencesLoop c t (indexOf c t 0) ps = Some (ps @ occurrence_offsets c t)"
  by (simp add: occurrencesLoop_offsets occurrence_offsets_filter del: upt_Suc)

lemma toLowerCase_Nil_iff: "toLowerCase t = [] \<longleftrightarrow> t = []"
  by (simp add: toLowerCase_def)

lemma collectPositions_offsets:
  "[] \<notin> set ts \<Longrightarrow>
   collectPositions c ts ps = Some (ps @ concat (map (\<lambda>t. occurrence_offsets c (toLowerCase t)) ts))"
  by (induction ts arbitrary: ps) (auto simp: Let_def occurrencesLoop_term toLowerCase_Nil_iff)

lemma includes_str_iff_sublist: "includes_str c t \<longleftrightarrow> sublist t c"
proof -
  have "includes_str c t \<longleftrightarrow> (\<exists>k\<le>length c. prefix t (drop k c))"
    by (auto simp: includes_str_def indexOf_notfound filter_empty_conv occursAt_def less_Suc_eq_le simp del: upt_Suc)
  also have "\<dots> \<longleftrightarrow> (\<exists>ys. suffix ys c \<and> prefix t ys)"
  proof
    assume "\<exists>k\<le>length c. prefix t (drop k c)"
    then show "\<exists>ys. suffix ys c \<and> prefix t ys" using suffix_drop by blast
  next
    assume "\<exists>ys. suffix ys c \<and> prefix t ys"
    then obtain ys where ys: "suffix ys c" "prefix t ys" by blast
    then obtain zs where "c = zs @ ys" by (auto simp: suffix_def)
    then have "drop (length zs) c = ys" "length zs \<le> length c" by auto
    then show "\<exists>k\<le>length c. prefix t (drop k c)" using ys(2) by blast
  qed
  also have "\<dots> \<longleftrightarrow> sublist t c" by (simp add: sublist_altdef')
  finally show ?thesis .
qed

lemma includes_str_offsets: "includes_str c t \<Longrightarrow> occurrence_offsets c t \<noteq> []"
proof -
  assume "includes_str c t"
  then obtain k where "k \<le> length c" "occursAt c t k"
    by (auto simp: includes_str_def indexOf_notfound filter_empty_conv less_Suc_eq_le simp del: upt_Suc)
  then have "k \<in> set (filter (occursAt c t) [0..<Suc (length c)])" by (simp del: upt_Suc)
  then show ?thesis unfolding occurrence_offsets_filter by auto
qed


lemma lookupMetadata_isOriginal:
  "(isOriginal (lookupMetadata (termMetadata cpt) T) \<or> T \<in> set (originalTerms cpt)) = is_original cpt T"
  by (simp add: lookupMetadata_def is_original_def split: option.splits)

lemma lookupMetadata_similarity:
  "similarity (lookupMetadata (termMetadata cpt) T) = term_similarity cpt T"
  by (simp add: lookupMetadata_def term_similarity_def split: option.splits)

lemma scoreTerm_step:
  "scoreTerm cpt c T (a, b, m, mo) =
     (if includes_str c (toLowerCase T) then
        (if is_original cpt T then (js_add a (Num 100), b, m @ [T], mo @ [T])
         else (a, js_add b (semantic_part cpt T), m @ [T], mo))
      else (a, b, m, mo))"
proof -
  have w: "originalTermWeight SCORING_CONFIG = 100" "semanticWeight SCORING_CONFIG = 30"
    by (simp_all add: SCORING_CONFIG_def)
  show ?thesis
    unfolding scoreTerm_def Let_def prod.case lookupMetadata_isOriginal lookupMetadata_similarity
      highSimilarityThreshold_double w semantic_part_def
    by simp
qed

lemma fold_scoreTerm:
  "fold (scoreTerm cpt c) ts (a, b, m, mo) =
     (foldl js_add a (map (\<lambda>T. Num 100)
            (filter (is_original cpt) (filter (\<lambda>T. includes_str c (toLowerCase T)) ts))),
      foldl js_add b (map (semantic_part cpt)
            (filter (\<lambda>T. \<not> is_original cpt T) (filter (\<lambda>T. includes_str c (toLowerCase T)) ts))),
      m @ filter (\<lambda>T. includes_str c (toLowerCase T)) ts,
      mo @ filter (is_original cpt) (filter (\<lambda>T. includes_str c (toLowerCase T)) ts))"
proof (induction ts arbitrary: a b m mo)
  case Nil
  show ?case by simp
next
  case (Cons T ts)
  consider (skip) "\<not> includes_str c (toLowerCase T)"
    | (orig) "includes_str c (toLowerCase T)" "is_original cpt T"
    | (sem) "includes_str c (toLowerCase T)" "\<not> is_original cpt T"
    by blast
  then show ?case
  proof cases
    case skip
    then have "scoreTerm cpt c T (a, b, m, mo) = (a, b, m, mo)" by (simp add: scoreTerm_step)
    then show ?thesis using skip by (simp add: Cons.IH)
  next
    case orig
    then have "scoreTerm cpt c T (a, b, m, mo) = (js_add a (Num 100), b, m @ [T], mo @ [T])"
      by (simp add: scoreTerm_step)
    then show ?thesis using orig by (simp add: Cons.IH)
  next
    case sem
    then have "scoreTerm cpt c T (a, b, m, mo) = (a, js_add b (semantic_part cpt T), m @ [T], mo)"
      by (simp add: scoreTerm_step)
    then show ?thesis using sem by (simp add: Cons.IH)
  qed
qed

lemma minDistanceLoop_fold:
  "fold (\<lambda>i minDistance.
             let distance = xs ! (i + 1) - xs ! i
             in case minDistance of
                  None \<Rightarrow> Some distance
                | Some m \<Rightarrow> if distance < m then Some distance else Some m)
          [0 ..< k] None
   = (if k = 0 then None else Some (Min ((\<lambda>i. xs ! (i + 1) - xs ! i) ` {..<k})))"
  (is "fold ?f [0..<k] None = _")
proof (induction k)
  case 0
  show ?case by simp
next
  case (Suc k)
  let ?g = "\<lambda>i. xs ! (i + 1) - xs ! i"
  have step: "fold ?f [0..<Suc k] None = ?f k (fold ?f [0..<k] None)" by simp
  show ?case
  proof (cases "k = 0")
    case True
    then show ?thesis by (simp add: lessThan_Suc)
  next
    case False
    then have ne: "?g ` {..<k} \<noteq> {}" by auto
    have fin: "finite (?g ` {..<k})" by simp
    have prev: "fold ?f [0..<k] None = Some (Min (?g ` {..<k}))" using False Suc.IH by simp
    have "?f k (Some (Min (?g ` {..<k}))) = Some (min (?g k) (Min (?g ` {..<k})))"
      by (auto simp: Let_def min_def)
    also have "min (?g k) (Min (?g ` {..<k})) = Min (insert (?g k) (?g ` {..<k}))"
      using Min_insert[OF fin ne, of "?g k"] by simp
    also have "insert (?g k) (?g ` {..<k}) = ?g ` {..<Suc k}" by (simp add: lessThan_Suc)
    finally show ?thesis unfolding step prev by simp
  qed
qed

lemma adjacent_gaps_image: "adjacent_gaps xs = (\<lambda>i. xs ! (i + 1) - xs ! i) ` {..<length xs - 1}"
  by (auto simp: adjacent_gaps_def)

lemma minDistanceLoop_Min:
  "2 \<le> length xs \<Longrightarrow> minDistanceLoop xs = Some (Min (adjacent_gaps xs))"
proof -
  assume "2 \<le> length xs"
  then have "length xs - 1 \<noteq> 0" by simp
  then show ?thesis
    unfolding minDistanceLoop_def minDistanceLoop_fold adjacent_gaps_image by simp
qed

lemma length_concat_nonempty:
  "\<forall>x \<in> set xs. f x \<noteq> [] \<Longrightarrow> length xs \<le> length (concat (map f xs))"
proof (induction xs)
  case Nil
  show ?case by simp
next
  case (Cons x xs)
  then have "1 \<le> length (f x)" by (cases "f x") auto
  then show ?case using Cons by simp
qed

lemma calculateProximityScore_matched:
  assumes "[] \<notin> set ml" "\<forall>T \<in> set ml. includes_str c (toLowerCase T)" "2 \<le> length ml"
  shows "calculateProximityScore c ml =
     Some (let d = Min (adjacent_gaps (sort (concat (map (\<lambda>T. occurrence_offsets c (toLowerCase T)) ml))))
           in if d \<le> 200 then Num (fl (50 * fl (1 - fl (real d / 200)))) else Num 0)"
proof -
  let ?ps = "concat (map (\<lambda>T. occurrence_offsets c (toLowerCase T)) ml)"
  have "length ml \<le> length ?ps"
    by (rule length_concat_nonempty) (use assms(2) includes_str_offsets in blast)
  then have len: "2 \<le> length (sort ?ps)" using assms(3) by simp
  have cp: "collectPositions c ml [] = Some ?ps"
    using collectPositions_offsets[OF assms(1), of c "[]"] by simp
  have "\<not> length ?ps < 2" using len by simp
  then show ?thesis
    by (simp add: calculateProximityScore_def cp minDistanceLoop_Min[OF len] SCORING_CONFIG_def Let_def)
qed

lemma scoreChunk_closed_form:
  fixes chunk :: "'a chunk_scheme" and cpt :: concept
  assumes "[] \<notin> set (terms cpt)"
  defines "c \<equiv> toLowerCase (content chunk)"
  defines "ml \<equiv> filter (\<lambda>T. includes_str c (toLowerCase T)) (terms cpt)"
  defines "orig \<equiv> js_sum (map (\<lambda>T. Num 100) (filter (is_original cpt) ml))"
  defines "sem \<equiv> js_sum (map (semantic_part cpt) (filter (\<lambda>T. \<not> is_original cpt T) ml))"
  defines "prox \<equiv> (if 2 \<le> length ml then
        let d = Min (adjacent_gaps (sort (concat (map (\<lambda>T. occurrence_offsets c (toLowerCase T)) ml))))
        in if d \<le> 200 then Num (fl (50 * fl (1 - fl (real d / 200)))) else Num 0
      else Num 0)"
  shows "scoreChunk chunk cpt =
     Some \<lparr>totalScore = js_add (js_add orig sem) prox, originalTermScore = orig, semanticScore = sem,
           proximityScore = prox, matchedTerms = ml,
           matchedOriginalTerms = filter (is_original cpt) ml, matchCount = length ml\<rparr>"
proof -
  have fold: "fold (scoreTerm cpt c) (terms cpt) (Num 0, Num 0, [], [])
      = (orig, sem, ml, filter (is_original cpt) ml)"
    by (simp add: fold_scoreTerm orig_def sem_def ml_def js_sum_def)
  have ne: "[] \<notin> set ml" using assms(1) by (auto simp: ml_def)
  have inc: "\<forall>T \<in> set ml. includes_str c (toLowerCase T)" by (simp add: ml_def)
  show ?thesis
  proof (cases "2 \<le> length ml")
    case True
    have "calculateProximityScore c ml = Some prox"
      using calculateProximityScore_matched[OF ne inc True] True by (simp add: prox_def)
    then show ?thesis using True by (simp add: scoreChunk_def c_def[symmetric] fold Let_def)
  next
    case False
    then have "prox = Num 0" by (simp add: prox_def)
    then show ?thesis using False by (simp add: scoreChunk_def c_def[symmetric] fold Let_def)
  qed
qed

lemma scoreChunk_returns: "[] \<notin> set (terms cpt) \<Longrightarrow> \<exists>b. scoreChunk chunk cpt = Some b"
  using scoreChunk_closed_form[of cpt chunk] by blast

lemma matched_filter:
  "filter (\<lambda>T. includes_str (toLowerCase C) (toLowerCase T)) (terms cpt) = matching_terms cpt C"
  unfolding matching_terms_def
  by (rule filter_cong[OF refl]) (simp add: term_matches_def includes_str_iff_sublist)

text \<open>A sum of hundreds is exact while it stays below \<open>2\<^sup>5\<^sup>3\<close>.\<close>

lemma foldl_hundreds:
  "100 * (a + k) \<le> 2 ^ 53 \<Longrightarrow>
   foldl js_add (Num (real (100 * a))) (replicate k (Num 100)) = Num (real (100 * (a + k)))"
proof (induction k arbitrary: a)
  case 0
  show ?case by simp
next
  case (Suc k)
  have le: "100 * (a + 1) \<le> (2::nat) ^ 53" using Suc.prems by simp
  have "fl (real (100 * a) + 100) = real (100 * (a + 1))"
    using fl_of_nat[OF le] by (simp add: algebra_simps)
  then have step: "js_add (Num (real (100 * a))) (Num 100) = Num (real (100 * (a + 1)))"
    by (simp add: js_add_def)
  have "foldl js_add (Num (real (100 * (a + 1)))) (replicate k (Num 100))
      = Num (real (100 * ((a + 1) + k)))"
    using Suc.prems by (intro Suc.IH) simp
  then show ?case using step by simp
qed

lemma js_sum_hundreds:
  assumes "100 * length xs \<le> 2 ^ 53"
  shows "js_sum (map (\<lambda>T. Num 100) xs) = Num (100 * real (length xs))"
proof -
  have r: "map (\<lambda>T. Num 100) xs = replicate (length xs) (Num 100)"
    by (induction xs) simp_all
  show ?thesis
    using foldl_hundreds[of 0 "length xs"] assms by (simp add: js_sum_def r)
qed

text \<open>The sample inputs, evaluated.\<close>

lemma fuel_lower: "toLowerCase ''fuel line'' = ''fuel line''" "toLowerCase ''fuel pump'' = ''fuel pump''"
  "toLowerCase ''fuel'' = ''fuel''"
  by code_simp+

lemma fuel_includes: "includes_str ''fuel line'' ''fuel''" "includes_str ''fuel pump'' ''fuel''"
  "includes_str ''fuel'' ''fuel''"
  by code_simp+

lemma fuel_offsets: "occurrence_offsets ''fuel'' ''fuel'' = [0]"
  by code_simp

lemma zero_gap: "Min (adjacent_gaps [0, 0]) = 0"
  by (simp add: adjacent_gaps_image lessThan_Suc)

lemma fl_hundreds: "fl 100 = 100" "fl 200 = 200" "fl 50 = 50" "fl 250 = 250"
  using fl_of_nat[of 100] fl_of_nat[of 200] fl_of_nat[of 50] fl_of_nat[of 250] by simp_all

lemma repeated_score:
  "scoreChunk fuelOnlyChunk repeatedConcept =
     Some \<lparr>totalScore = Num 250, originalTermScore = Num 200, semanticScore = Num 0,
           proximityScore = Num 50, matchedTerms = [''fuel'', ''fuel''],
           matchedOriginalTerms = [''fuel'', ''fuel''], matchCount = 2\<rparr>"
proof -
  have ne: "[] \<notin> set (terms repeatedConcept)" by (simp add: repeatedConcept_def)
  have orig: "is_original repeatedConcept ''fuel''"
    by (simp add: is_original_def repeatedConcept_def)
  have t: "terms repeatedConcept = [''fuel'', ''fuel'']" by (simp add: repeatedConcept_def)
  show ?thesis
    using scoreChunk_closed_form[OF ne, of fuelOnlyChunk] orig
    by (simp add: fuelOnlyChunk_def t fuel_lower fuel_includes fuel_offsets zero_gap
          js_sum_def js_add_def fl_0 fl_1 fl_hundreds)
qed

text \<open>
  C2, as stated, fails when \<open>terms\<close> lists a term twice, as \<open>convertToSearchFormat\<close> builds it
  for the question \<open>fuel fuel\<close>: one distinct term matches the content \<open>fuel\<close>, yet the
  proximity component is 50 (the occurrence at offset 0 is collected twice, so the minimum gap
  is 0), where fewer than 2 distinct matching terms should give 0.
\<close>

theorem scoreChunk_repeated_term_counterexample:
  "scoreChunk fuelOnlyChunk repeatedConcept =
     Some \<lparr>totalScore = Num 250, originalTermScore = Num 200, semanticScore = Num 0,
           proximityScore = Num 50, matchedTerms = [''fuel'', ''fuel''],
           matchedOriginalTerms = [''fuel'', ''fuel''], matchCount = 2\<rparr>
   \<and> card {T \<in> set (terms repeatedConcept). term_matches (content fuelOnlyChunk) T} = 1"
proof -
  have "{T \<in> set (terms repeatedConcept). term_matches (content fuelOnlyChunk) T} = {''fuel''}"
    using fuel_includes(3)
    by (auto simp: repeatedConcept_def fuelOnlyChunk_def term_matches_def fuel_lower
          includes_str_iff_sublist)
  then show ?thesis using repeated_score by simp
qed

text \<open>
  C2 (amended): for every chunk content and every expanded concept without an empty term,
  \<open>scoreChunk\<close> returns, and its result is the specified hybrid score computed in doubles
  over the matching terms as \<open>terms\<close> lists them, a term listed twice counting twice: each
  matching term adds 100 to \<open>originalTermScore\<close> if it is original, else \<open>30 * similarity\<close>
  to \<open>semanticScore\<close> if its similarity is at least the double of 0.7, else
  \<open>30 * similarity * 0.5\<close>, every product and sum rounded, the sums taken from the left
  (the sum of the hundreds is exact while it is below \<open>2\<^sup>5\<^sup>3\<close>); with at least 2 matching
  terms in the list the proximity component is \<open>50 * (1 - d/200)\<close>, rounded at each
  operation, for the minimum gap \<open>d\<close> between adjacent sorted occurrence offsets when
  \<open>d \<le> 200\<close>, and 0 otherwise; the total is the rounded sum of the three, from the left.
\<close>

theorem scoreChunk_hybrid_score:
  assumes "[] \<notin> set (terms cpt)"
  shows "\<exists>b. scoreChunk chunk cpt = Some b
           \<and> matchedTerms b = matching_terms cpt (content chunk)
           \<and> originalTermScore b = specified_original cpt (content chunk)
           \<and> semanticScore b = specified_semantic cpt (content chunk)
           \<and> proximityScore b = specified_proximity cpt (content chunk)
           \<and> totalScore b = js_add (js_add (originalTermScore b) (semanticScore b)) (proximityScore b)
           \<and> (100 * length (filter (is_original cpt) (matching_terms cpt (content chunk))) \<le> 2 ^ 53
                \<longrightarrow> originalTermScore b
                    = Num (100 * real (length (filter (is_original cpt) (matching_terms cpt (content chunk))))))"
proof -
  let ?C = "content chunk"
  let ?ml = "matching_terms cpt ?C"
  have p: "(if 2 \<le> length ?ml then
        let d = Min (adjacent_gaps (sort (concat (map (\<lambda>T. occurrence_offsets (toLowerCase ?C) (toLowerCase T)) ?ml))))
        in if d \<le> 200 then Num (fl (50 * fl (1 - fl (real d / 200)))) else Num 0
      else Num 0) = specified_proximity cpt ?C"
    by (simp add: specified_proximity_def all_offsets_def)
  have cf: "scoreChunk chunk cpt =
     Some \<lparr>totalScore = js_add (js_add (specified_original cpt ?C) (specified_semantic cpt ?C))
                          (specified_proximity cpt ?C),
           originalTermScore = specified_original cpt ?C,
           semanticScore = specified_semantic cpt ?C,
           proximityScore = specified_proximity cpt ?C,
           matchedTerms = ?ml,
           matchedOriginalTerms = filter (is_original cpt) ?ml, matchCount = length ?ml\<rparr>"
    using scoreChunk_closed_form[OF assms, of chunk]
    unfolding matched_filter p specified_original_def[symmetric] specified_semantic_def[symmetric] .
  have h: "100 * length (filter (is_original cpt) ?ml) \<le> 2 ^ 53
        \<longrightarrow> specified_original cpt ?C = Num (100 * real (length (filter (is_original cpt) ?ml)))"
    unfolding specified_original_def using js_sum_hundreds by blast
  show ?thesis unfolding cf using h by simp
qed

lemma gps_lower: "toLowerCase ''configure GPS now'' = ''configure gps now''"
  "toLowerCase ''configure'' = ''configure''" "toLowerCase ''gps'' = ''gps''"
  by code_simp+

lemma gps_includes: "includes_str ''configure gps now'' ''configure''" "includes_str ''configure gps now'' ''gps''"
  by code_simp+

lemma gps_offsets: "occurrence_offsets ''configure gps now'' ''configure'' = [0]"
  "occurrence_offsets ''configure gps now'' ''gps'' = [10]"
  by code_simp+

lemma gps_gaps: "Min (adjacent_gaps [0, 10]) = 10"
  by (simp add: adjacent_gaps_image lessThan_Suc)

lemma fl_twentieth: "fl (1 / 20) = 3602879701896397 / 72057594037927936"
  using fl_eval[of "1 / 20" "- 5" 7205759403792794] by (simp add: power_int_minus)

lemma fl_gps_ratio: "fl (68454714336031539 / 72057594037927936) = 4278419646001971 / 4503599627370496"
  using fl_eval[of "68454714336031539 / 72057594037927936" "- 1" 8556839292003942] by (simp add: power_int_minus)

lemma fl_gps_product: "fl (106960491150049275 / 2251799813685248) = 95 / 2"
  using fl_eval[of "106960491150049275 / 2251799813685248" "5" 6685030696878080] by (simp add: power_int_minus)

lemma gps_proximity: "fl (50 * fl (1 - fl (1 / 20))) = 95 / 2"
proof -
  have a: "(1::real) - 3602879701896397 / 72057594037927936 = 68454714336031539 / 72057594037927936"
    by simp
  have b: "(50::real) * (4278419646001971 / 4503599627370496) = 106960491150049275 / 2251799813685248"
    by simp
  show ?thesis
    by (simp only: fl_twentieth a fl_gps_ratio b fl_gps_product)
qed

lemma fl_gps_total: "fl (495 / 2) = 495 / 2"
  using fl_eval[of "495 / 2" 7 8708132091985920] by (simp add: power_int_minus)

lemma gps_score:
  "scoreChunk gpsChunk gpsConcept =
     Some \<lparr>totalScore = Num (495 / 2), originalTermScore = Num 200, semanticScore = Num 0,
           proximityScore = Num (95 / 2),
           matchedTerms = [''configure'', ''gps''], matchedOriginalTerms = [''configure'', ''gps''],
           matchCount = 2\<rparr>"
proof -
  have ne: "[] \<notin> set (terms gpsConcept)" by (simp add: gpsConcept_def)
  have orig: "is_original gpsConcept ''configure''" "is_original gpsConcept ''gps''"
    by (simp_all add: is_original_def gpsConcept_def)
  have t: "terms gpsConcept = [''configure'', ''gps'']" by (simp add: gpsConcept_def)
  show ?thesis
    using scoreChunk_closed_form[OF ne, of gpsChunk] orig
    by (simp add: gpsChunk_def t gps_lower gps_includes gps_offsets gps_gaps gps_proximity
          js_sum_def js_add_def fl_0 fl_hundreds fl_gps_total)
qed

theorem scoreChunk_hybrid_score_witness:
  "[] \<notin> set (terms gpsConcept)
   \<and> scoreChunk gpsChunk gpsConcept =
       Some \<lparr>totalScore = Num (495 / 2), originalTermScore = Num 200, semanticScore = Num 0,
             proximityScore = Num (95 / 2),
             matchedTerms = [''configure'', ''gps''], matchedOriginalTerms = [''configure'', ''gps''],
             matchCount = 2\<rparr>
   \<and> matching_terms gpsConcept (content gpsChunk) = [''configure'', ''gps'']
   \<and> specified_original gpsConcept (content gpsChunk) = Num 200
   \<and> specified_semantic gpsConcept (content gpsChunk) = Num 0
   \<and> specified_proximity gpsConcept (content gpsChunk) = Num (95 / 2)"
proof -
  have ne: "[] \<notin> set (terms gpsConcept)"
    by (simp add: gpsConcept_def)
  show ?thesis
    using scoreChunk_hybrid_score[OF ne, of gpsChunk] ne gps_score by auto
qed

text \<open>
  The rounding is visible in the scores. With the similarities \<open>0.71\<close> and \<open>0.58\<close> the
  semantic score is \<open>30 * 0.71 + 30 * 0.58 * 0.5\<close>, which is 30 exactly and
  29.999999999999996 as \<open>scoreChunk\<close> computes it: the product \<open>30 * 0.71\<close> already rounds
  to 21.299999999999997.
\<close>

lemma fl_similarities:
  "fl (71 / 100) = 799388933858263 / 1125899906842624"
  "fl (58 / 100) = 5224175567749775 / 9007199254740992"
  using fl_eval[of "71 / 100" "- 1" 6395111470866104] fl_eval[of "58 / 100" "- 1" 5224175567749775]
  by (simp_all add: power_int_minus)

lemma fl_sem_1: "fl (11990834007873945 / 562949953421312) = 1498854250984243 / 70368744177664"
  using fl_binade[of "11990834007873945 / 562949953421312" "4"] by (simp add: power_int_minus round_even_def Let_def)

lemma fl_sem_2: "fl (78362633516246625 / 4503599627370496) = 2448832297382707 / 140737488355328"
  using fl_eval[of "78362633516246625 / 4503599627370496" "4" 4897664594765414] by (simp add: power_int_minus)

lemma fl_sem_3: "fl (2448832297382707 / 281474976710656) = 2448832297382707 / 281474976710656"
  using fl_eval[of "2448832297382707 / 281474976710656" "3" 4897664594765414] by (simp add: power_int_minus)

lemma fl_sem_4: "fl (1498854250984243 / 70368744177664) = 1498854250984243 / 70368744177664"
  using fl_eval[of "1498854250984243 / 70368744177664" "4" 5995417003936972] by (simp add: power_int_minus)

lemma fl_sem_5: "fl (8444249301319679 / 281474976710656) = 8444249301319679 / 281474976710656"
  using fl_eval[of "8444249301319679 / 281474976710656" "4" 8444249301319679] by (simp add: power_int_minus)

lemma valve_parts:
  "semantic_part valveConcept ''pump'' = Num (1498854250984243 / 70368744177664)"
  "semantic_part valveConcept ''valve'' = Num (2448832297382707 / 281474976710656)"
  by (simp_all add: semantic_part_def term_similarity_def valveConcept_def js_ge_def js_mul_def
        fl_seven_tenths fl_sem_1 fl_sem_2 fl_sem_3)

lemma valve_lower: "toLowerCase ''pump valve'' = ''pump valve''" "toLowerCase ''pump'' = ''pump''"
  "toLowerCase ''valve'' = ''valve''"
  by code_simp+

lemma valve_includes: "includes_str ''pump valve'' ''pump''" "includes_str ''pump valve'' ''valve''"
  by code_simp+

lemma semanticScore_rounding:
  "map_option semanticScore (scoreChunk valveChunk valveConcept)
     = Some (Num (8444249301319679 / 281474976710656))"
  "(8444249301319679 / 281474976710656 :: real) < 30"
  "(30::real) * (71 / 100) + 30 * (58 / 100) * (1 / 2) = 30"
proof -
  have ne: "[] \<notin> set (terms valveConcept)" by (simp add: valveConcept_def)
  have no: "\<not> is_original valveConcept ''pump''" "\<not> is_original valveConcept ''valve''"
    by (simp_all add: is_original_def valveConcept_def)
  have t: "terms valveConcept = [''pump'', ''valve'']" by (simp add: valveConcept_def)
  have sum: "js_sum [Num (1498854250984243 / 70368744177664), Num (2448832297382707 / 281474976710656)]
      = Num (8444249301319679 / 281474976710656)"
    by (simp add: js_sum_def js_add_def fl_sem_4 fl_sem_5)
  show "map_option semanticScore (scoreChunk valveChunk valveConcept)
     = Some (Num (8444249301319679 / 281474976710656))"
    using no
    by (simp add: scoreChunk_closed_form[OF ne] valveChunk_def t valve_lower valve_includes
          valve_parts sum)
  show "(8444249301319679 / 281474976710656 :: real) < 30" by simp
  show "(30::real) * (71 / 100) + 30 * (58 / 100) * (1 / 2) = 30" by simp
qed

text \<open>
  A matching term that names a member of \<open>Object.prototype\<close>, has no metadata of its own and
  is not listed as original takes the inherited member for its metadata: the semantic score
  and the total are \<open>NaN\<close>.
\<close>

lemma constructor_lower: "toLowerCase ''the constructor'' = ''the constructor''"
  "toLowerCase ''constructor'' = ''constructor''"
  by code_simp+

lemma constructor_includes: "includes_str ''the constructor'' ''constructor''"
  by code_simp

lemma inherited_member_score:
  "map_option (\<lambda>b. (originalTermScore b, semanticScore b, proximityScore b, totalScore b))
       (scoreChunk constructorChunk constructorConcept)
     = Some (Num 0, NaN, Num 0, NaN)"
proof -
  have ne: "[] \<notin> set (terms constructorConcept)" by (simp add: constructorConcept_def)
  have no: "\<not> is_original constructorConcept ''constructor''"
    by (simp add: is_original_def constructorConcept_def)
  have t: "terms constructorConcept = [''constructor'']" by (simp add: constructorConcept_def)
  have sp: "semantic_part constructorConcept ''constructor'' = NaN"
    by (simp add: semantic_part_def term_similarity_def constructorConcept_def
          objectPrototypeProperties_def js_ge_def js_mul_def)
  show ?thesis
    using no
    by (simp add: scoreChunk_closed_form[OF ne] constructorChunk_def t constructor_lower
          constructor_includes sp js_sum_def js_add_def)
qed

text \<open>
  Lower-casing reaches the capital letters of Latin-1: the code unit 201 (capital E with an
  acute accent) becomes 233 (the small letter).
\<close>

lemma toLowerCase_latin1: "toLowerCase [char_of (201::nat)] = [char_of (233::nat)]"
  by code_simp

text \<open>
  The hypothesis on empty terms is needed: for the empty term the occurrence loop does not
  end, so \<open>scoreChunk\<close> does not return once it looks for the proximity of two matches.
\<close>


lemma indexOf_empty_end: "indexOf c [] (Suc (length c)) = int (length c)"
  by (simp add: indexOf_def)

lemma indexOf_empty_le: "i \<le> length c \<Longrightarrow> indexOf c [] i = int i"
  by (simp add: indexOf_def Let_def min_def upt_conv_Cons del: upt_Suc)

lemma occurrencesLoop_never_at_end:
  assumes "occurrencesLoop c t i qs = Some r"
  shows "\<not> (t = [] \<and> i = int (length c))"
proof (rule occurrencesLoop.raw_induct
         [where P = "\<lambda>c t i qs r. \<not> (t = [] \<and> i = int (length c))", OF _ assms], goal_cases)
  case (1 loop c' t' i' qs' r')
  show ?case
  proof
    assume a: "t' = [] \<and> i' = int (length c')"
    have step: "loop c' [] (int (length c')) (qs' @ [length c']) = Some r'"
      using 1(2) a by (simp add: indexOf_empty_end)
    show False using 1(1)[OF step] by simp
  qed
qed

lemma occurrencesLoop_empty_end: "occurrencesLoop c [] (int (length c)) ps = None"
  using occurrencesLoop_never_at_end[of c "[]" "int (length c)" ps] by (cases "occurrencesLoop c [] (int (length c)) ps") auto

lemma occurrencesLoop_empty:
  "i \<le> length c \<Longrightarrow> occurrencesLoop c [] (int i) ps = None"
proof (induction "length c - i" arbitrary: i ps)
  case 0
  then have "i = length c" by simp
  then show ?case by (simp add: occurrencesLoop_empty_end)
next
  case (Suc d)
  then have le: "Suc i \<le> length c" and "d = length c - Suc i" by auto
  then have "occurrencesLoop c [] (int (Suc i)) (ps @ [i]) = None" using Suc.hyps(1) by blast
  then show ?case
    using le by (subst occurrencesLoop.simps) (simp add: indexOf_empty_le)
qed

lemma collectPositions_empty_term: "collectPositions c ([] # rest) ps = None"
  using occurrencesLoop_empty[of 0 c ps]
  by (simp add: Let_def toLowerCase_def indexOf_empty_le)


lemma collectPositions_diverges: "[] \<in> set ts \<Longrightarrow> collectPositions c ts ps = None"
proof (induction ts arbitrary: ps)
  case Nil
  then show ?case by simp
next
  case (Cons t ts)
  show ?case
  proof (cases "t = []")
    case True
    show ?thesis unfolding True by (rule collectPositions_empty_term)
  next
    case False
    then have "[] \<in> set ts" using Cons.prems by auto
    then show ?thesis
      using False by (simp add: Let_def occurrencesLoop_term toLowerCase_Nil_iff Cons.IH)
  qed
qed

lemma scoreChunk_diverges:
  fixes chunk :: "'a chunk_scheme"
  assumes "[] \<in> set (terms cpt)"
    and "2 \<le> length (filter (\<lambda>T. includes_str (toLowerCase (content chunk)) (toLowerCase T)) (terms cpt))"
  shows "scoreChunk chunk cpt = None"
proof -
  let ?c = "toLowerCase (content chunk)"
  let ?ml = "filter (\<lambda>T. includes_str ?c (toLowerCase T)) (terms cpt)"
  have "includes_str ?c (toLowerCase [])"
    by (simp add: includes_str_iff_sublist toLowerCase_def)
  then have "[] \<in> set ?ml" using assms(1) by simp
  then have "calculateProximityScore ?c ?ml = None"
    by (simp add: calculateProximityScore_def collectPositions_diverges)
  then show ?thesis
    using assms(2) by (simp add: scoreChunk_def Let_def fold_scoreTerm)
qed
section \<open>Properties of the ranking\<close>

lemma those_map_total:
  assumes "\<forall>x \<in> set xs. \<exists>y. f x = Some y"
  shows "\<exists>ys. those (map f xs) = Some ys \<and> list_all2 (\<lambda>x y. f x = Some y) xs ys"
  using assms
proof (induction xs)
  case Nil
  show ?case by simp
next
  case (Cons x xs)
  then obtain y ys where "f x = Some y" "those (map f xs) = Some ys"
    "list_all2 (\<lambda>x y. f x = Some y) xs ys" by auto
  then show ?case by simp
qed

lemma score_all_chunks:
  assumes "[] \<notin> set (terms cpt)"
  shows "\<exists>scored. those (map (\<lambda>c. map_option (withScore c) (scoreChunk c cpt)) searchableChunks) = Some scored
       \<and> list_all2 (\<lambda>c sc. \<exists>b. scoreChunk c cpt = Some b \<and> sc = withScore c b) searchableChunks scored"
proof -
  have "\<forall>c \<in> set searchableChunks. \<exists>y. map_option (withScore c) (scoreChunk c cpt) = Some y"
    using scoreChunk_returns[OF assms] by fastforce
  from those_map_total[OF this] obtain scored where
    s: "those (map (\<lambda>c. map_option (withScore c) (scoreChunk c cpt)) searchableChunks) = Some scored"
       "list_all2 (\<lambda>c sc. map_option (withScore c) (scoreChunk c cpt) = Some sc) searchableChunks scored"
    by blast
  have "list_all2 (\<lambda>c sc. \<exists>b. scoreChunk c cpt = Some b \<and> sc = withScore c b) searchableChunks scored"
    using s(2) by (rule list_all2_mono) auto
  then show ?thesis using s(1) by blast
qed

lemma ranked_sorted: "sorted_wrt (\<lambda>a b. scoreOf b \<le> scoreOf a) (sort_key (\<lambda>c. - scoreOf c) xs)"
proof -
  have "sorted (map (\<lambda>c. - scoreOf c) (sort_key (\<lambda>c. - scoreOf c) xs))" by (rule sorted_sort_key)
  then show ?thesis by (simp add: sorted_map)
qed

lemma ranked_stable:
  "filter (\<lambda>sc. scoreOf sc = s) (sort_key (\<lambda>c. - scoreOf c) xs) = filter (\<lambda>sc. scoreOf sc = s) xs"
  using sort_key_stable[of "\<lambda>c. - scoreOf c" "- s" xs] by simp

lemma filterBySpatialCategory_cases:
  "filterBySpatialCategory cs category = cs \<or> filterBySpatialCategory cs category = []"
  by (simp add: filterBySpatialCategory_def Let_def)

lemma qualifies_scoreOf: "qualifies sc \<Longrightarrow> relevanceScore sc = Some (Num (scoreOf sc)) \<and> 30 \<le> scoreOf sc"
  by (auto simp: qualifies_def scoreOf_def js_ge_def SCORING_CONFIG_def split: option.splits number.splits)

lemma fuel_scores:
  "map (\<lambda>c. map_option totalScore (scoreChunk c fuelConcept)) fuelChunks = [Some (Num 100), Some (Num 100)]"
proof -
  have ne: "[] \<notin> set (terms fuelConcept)" by (simp add: fuelConcept_def)
  have orig: "is_original fuelConcept ''fuel''" by (simp add: is_original_def fuelConcept_def)
  have t: "terms fuelConcept = [''fuel'']" by (simp add: fuelConcept_def)
  show ?thesis
    using orig
    by (simp add: fuelChunks_def scoreChunk_closed_form[OF ne] t fuel_lower fuel_includes
          js_sum_def js_add_def fl_0 fl_hundreds)
qed

lemma fuel_ranking:
  "map_option (map (\<lambda>c. (documentId c, chunkNumber c, relevanceScore c)))
       (executeBlockWithScoring fuelBlock fuelChunks)
     = Some [(2, 0, Some (Num 100)), (1, 0, Some (Num 100))]"
proof -
  have ne: "[] \<notin> set (terms fuelConcept)" by (simp add: fuelConcept_def)
  have orig: "is_original fuelConcept ''fuel''" by (simp add: is_original_def fuelConcept_def)
  have t: "terms fuelConcept = [''fuel'']" by (simp add: fuelConcept_def)
  show ?thesis
    using orig
    by (simp add: executeBlockWithScoring_def fuelBlock_def fuelChunks_def scoreChunk_closed_form[OF ne] t
          fuel_lower fuel_includes withScore_def scoreOf_def qualifies_def js_ge_def SCORING_CONFIG_def
          js_sum_def js_add_def fl_0 fl_hundreds)
qed

text \<open>
  C3, as stated, fails on the tie-break: two chunks of score 100, given as document 2 before
  document 1, stay in that order, although \<open>(1, 0) < (2, 0)\<close>.
\<close>

theorem ranking_ties_counterexample:
  "map_option (map (\<lambda>c. (documentId c, chunkNumber c, relevanceScore c)))
       (executeBlockWithScoring fuelBlock fuelChunks)
     = Some [(2, 0, Some (Num 100)), (1, 0, Some (Num 100))]
   \<and> ((1::nat), (0::nat)) < (2, 0)"
  using fuel_ranking by simp

text \<open>
  C3 (amended): for every topic whose concept has no empty term and every chunk set, every
  chunk is scored, its \<open>relevanceScore\<close> being the total that \<open>scoreChunk\<close> computes in
  doubles; the ranked list holds exactly the scored chunks whose score is a number (not
  \<open>NaN\<close>) of at least 30, in descending order of that score, chunks of equal score keeping
  the order of the chunk set; it is the result for the spatial category \<open>auto\<close>, and for
  another category the result is that list or the empty list, as the spatial filter decides.
\<close>

theorem executeBlockWithScoring_ranking:
  assumes "inclusionConcepts blk = cpt # rest" and "[] \<notin> set (terms cpt)"
  shows "\<exists>scored ranked.
      list_all2 (\<lambda>c sc. \<exists>b. scoreChunk c cpt = Some b \<and> sc = withScore c b) searchableChunks scored
    \<and> set ranked = {sc \<in> set scored. \<exists>s. relevanceScore sc = Some (Num s) \<and> 30 \<le> s}
    \<and> (\<forall>sc \<in> set ranked. relevanceScore sc = Some (Num (scoreOf sc)))
    \<and> sorted_wrt (\<lambda>a b. scoreOf b \<le> scoreOf a) ranked
    \<and> (\<forall>s. filter (\<lambda>sc. scoreOf sc = s) ranked
              = filter (\<lambda>sc. relevanceScore sc = Some (Num s) \<and> 30 \<le> s) scored)
    \<and> executeBlockWithScoring blk searchableChunks =
        Some (if spatialCategory blk = ''auto'' then ranked
              else filterBySpatialCategory ranked (spatialCategory blk))
    \<and> (filterBySpatialCategory ranked (spatialCategory blk) = ranked
        \<or> filterBySpatialCategory ranked (spatialCategory blk) = [])"
proof -
  from score_all_chunks[OF assms(2)] obtain scored where
    sc: "those (map (\<lambda>c. map_option (withScore c) (scoreChunk c cpt)) searchableChunks) = Some scored"
        "list_all2 (\<lambda>c sc. \<exists>b. scoreChunk c cpt = Some b \<and> sc = withScore c b) searchableChunks scored"
    by blast
  let ?q = "filter qualifies scored"
  let ?r = "sort_key (\<lambda>c. - scoreOf c) ?q"
  have q: "qualifies x \<longleftrightarrow> (\<exists>s. relevanceScore x = Some (Num s) \<and> 30 \<le> s)" for x
    by (auto simp: qualifies_def js_ge_def SCORING_CONFIG_def split: option.splits number.splits)
  have 1: "set ?r = {sc \<in> set scored. \<exists>s. relevanceScore sc = Some (Num s) \<and> 30 \<le> s}"
    using q by auto
  have 2: "sorted_wrt (\<lambda>a b. scoreOf b \<le> scoreOf a) ?r" by (rule ranked_sorted)
  have 5: "\<forall>sc \<in> set ?r. relevanceScore sc = Some (Num (scoreOf sc))"
    using qualifies_scoreOf by auto
  have 3: "filter (\<lambda>sc. scoreOf sc = s) ?r
        = filter (\<lambda>sc. relevanceScore sc = Some (Num s) \<and> 30 \<le> s) scored" for s
  proof -
    have "filter (\<lambda>sc. scoreOf sc = s) ?r = filter (\<lambda>sc. scoreOf sc = s) ?q"
      by (rule ranked_stable)
    also have "\<dots> = filter (\<lambda>sc. relevanceScore sc = Some (Num s) \<and> 30 \<le> s) scored"
      unfolding filter_filter
      by (rule filter_cong[OF refl]) (auto simp: q scoreOf_def)
    finally show ?thesis .
  qed
  have 4: "executeBlockWithScoring blk searchableChunks =
        Some (if spatialCategory blk = ''auto'' then ?r
              else filterBySpatialCategory ?r (spatialCategory blk))"
    by (simp add: executeBlockWithScoring_def assms(1) sc(1) Let_def)
  show ?thesis
    using sc(2) 1 5 2 3 4 filterBySpatialCategory_cases[of ?r "spatialCategory blk"] by blast
qed

theorem executeBlockWithScoring_ranking_witness:
  "inclusionConcepts fuelBlock = fuelConcept # [] \<and> [] \<notin> set (terms fuelConcept)
   \<and> (\<exists>scored ranked.
        list_all2 (\<lambda>c sc. \<exists>b. scoreChunk c fuelConcept = Some b \<and> sc = withScore c b) fuelChunks scored
      \<and> set ranked = {sc \<in> set scored. \<exists>s. relevanceScore sc = Some (Num s) \<and> 30 \<le> s}
      \<and> sorted_wrt (\<lambda>a b. scoreOf b \<le> scoreOf a) ranked
      \<and> executeBlockWithScoring fuelBlock fuelChunks = Some ranked
      \<and> map (\<lambda>c. (documentId c, chunkNumber c, relevanceScore c)) ranked
          = [(2, 0, Some (Num 100)), (1, 0, Some (Num 100))])"
proof -
  have a: "inclusionConcepts fuelBlock = fuelConcept # []" by (simp add: fuelBlock_def)
  have b: "[] \<notin> set (terms fuelConcept)" by (simp add: fuelConcept_def)
  have c: "spatialCategory fuelBlock = ''auto''" by (simp add: fuelBlock_def)
  from executeBlockWithScoring_ranking[OF a b, of fuelChunks] obtain scored ranked where
    r: "list_all2 (\<lambda>c sc. \<exists>b. scoreChunk c fuelConcept = Some b \<and> sc = withScore c b) fuelChunks scored"
       "set ranked = {sc \<in> set scored. \<exists>s. relevanceScore sc = Some (Num s) \<and> 30 \<le> s}"
       "sorted_wrt (\<lambda>a b. scoreOf b \<le> scoreOf a) ranked"
       "executeBlockWithScoring fuelBlock fuelChunks = Some ranked"
    unfolding c by auto
  have m: "map (\<lambda>c. (documentId c, chunkNumber c, relevanceScore c)) ranked
          = [(2, 0, Some (Num 100)), (1, 0, Some (Num 100))]"
    using fuel_ranking r(4) by simp
  have "\<exists>scored ranked.
        list_all2 (\<lambda>c sc. \<exists>b. scoreChunk c fuelConcept = Some b \<and> sc = withScore c b) fuelChunks scored
      \<and> set ranked = {sc \<in> set scored. \<exists>s. relevanceScore sc = Some (Num s) \<and> 30 \<le> s}
      \<and> sorted_wrt (\<lambda>a b. scoreOf b \<le> scoreOf a) ranked
      \<and> executeBlockWithScoring fuelBlock fuelChunks = Some ranked
      \<and> map (\<lambda>c. (documentId c, chunkNumber c, relevanceScore c)) ranked
          = [(2, 0, Some (Num 100)), (1, 0, Some (Num 100))]"
    by (rule exI[of _ scored], rule exI[of _ ranked]) (intro conjI r m)
  with a b show ?thesis by (intro conjI)
qed
section \<open>Properties of packing and formatting\<close>

lemma chronological_append:
  "chronological (xs @ ys) \<Longrightarrow> chronological xs \<and> chronological ys"
  by (simp add: chronological_def sorted_wrt_append)

lemma packChunk_cases:
  "packChunk maxChars headerChars tr thc chunk (st, sec) =
     (if (if isFirstSuperChunk st then headerChars else 0) + currentChars st
            + (length (chunkFormatted chunk) + (if length (topicSection.chunks sec) = 0 then thc else 0)) > maxChars
          \<and> (length (currentTopics st) > 0 \<or> length (topicSection.chunks sec) > 0)
      then (\<lparr>superChunks = superChunks st
                 @ [\<lparr>topics = (if length (topicSection.chunks sec) > 0 then currentTopics st @ [sec] else currentTopics st),
                     totalChars = currentChars st + (if isFirstSuperChunk st then headerChars else 0),
                     isFirst = isFirstSuperChunk st\<rparr>],
               currentChars = thc + length (chunkFormatted chunk), currentTopics = [], isFirstSuperChunk = False\<rparr>,
            \<lparr>topicId = topicResult.topicId tr, topicQuestion = topicResult.topicQuestion tr,
              chunks = [chunk], isContinuation = True\<rparr>)
      else (st\<lparr>currentChars := currentChars st
                    + (if length (topicSection.chunks sec) = 0 then thc else 0)
                    + length (chunkFormatted chunk)\<rparr>,
            sec\<lparr>chunks := topicSection.chunks sec @ [chunk]\<rparr>))"
  unfolding packChunk_def Let_def prod.case by (rule refl)

lemma packChunk_invariant:
  assumes "pack_invariant st" "chronological (topicSection.chunks sec @ [chunk])"
    and "packChunk maxChars headerChars tr thc chunk (st, sec) = (st', sec')"
  shows "pack_invariant st'
       \<and> (topicSection.chunks sec' = topicSection.chunks sec @ [chunk] \<or> topicSection.chunks sec' = [chunk])"
proof -
  let ?headerSpace = "if isFirstSuperChunk st then headerChars else 0"
  let ?overflow = "?headerSpace + currentChars st
        + (length (chunkFormatted chunk) + (if length (topicSection.chunks sec) = 0 then thc else 0)) > maxChars
      \<and> (length (currentTopics st) > 0 \<or> length (topicSection.chunks sec) > 0)"
  let ?closedTopics = "if length (topicSection.chunks sec) > 0 then currentTopics st @ [sec] else currentTopics st"
  have cs: "chronological (topicSection.chunks sec)"
    using chronological_append[OF assms(2)] by simp
  have closed: "sections_chronological ?closedTopics"
    using assms(1) cs by (simp add: pack_invariant_def sections_chronological_def)
  show ?thesis
  proof (cases ?overflow)
    case True
    have "(st', sec') = (\<lparr>superChunks = superChunks st
                 @ [\<lparr>topics = ?closedTopics, totalChars = currentChars st + ?headerSpace,
                     isFirst = isFirstSuperChunk st\<rparr>],
               currentChars = thc + length (chunkFormatted chunk), currentTopics = [], isFirstSuperChunk = False\<rparr>,
            \<lparr>topicId = topicResult.topicId tr, topicQuestion = topicResult.topicQuestion tr,
              chunks = [chunk], isContinuation = True\<rparr>)"
      unfolding assms(3)[symmetric] packChunk_cases by (rule if_P) (rule True)
    then have st': "superChunks st' = superChunks st
                 @ [\<lparr>topics = ?closedTopics, totalChars = currentChars st + ?headerSpace,
                     isFirst = isFirstSuperChunk st\<rparr>]" "currentTopics st' = []"
      and sec': "topicSection.chunks sec' = [chunk]"
      by simp_all
    have "pack_invariant st'"
      using assms(1) closed unfolding pack_invariant_def st' by (simp add: sections_chronological_def)
    then show ?thesis using sec' by simp
  next
    case False
    have "(st', sec') = (st\<lparr>currentChars := currentChars st
                    + (if length (topicSection.chunks sec) = 0 then thc else 0)
                    + length (chunkFormatted chunk)\<rparr>,
            sec\<lparr>chunks := topicSection.chunks sec @ [chunk]\<rparr>)"
      unfolding assms(3)[symmetric] packChunk_cases by (rule if_not_P) (rule False)
    then have st': "superChunks st' = superChunks st" "currentTopics st' = currentTopics st"
      and sec': "topicSection.chunks sec' = topicSection.chunks sec @ [chunk]"
      by simp_all
    have "pack_invariant st'" using assms(1) unfolding pack_invariant_def st' .
    then show ?thesis using sec' by simp
  qed
qed

lemma fold_packChunk_invariant:
  assumes "pack_invariant st" "chronological (topicSection.chunks sec @ rest)"
    and "fold (packChunk maxChars headerChars tr thc) rest (st, sec) = (st', sec')"
  shows "pack_invariant st' \<and> chronological (topicSection.chunks sec')"
  using assms
proof (induction rest arbitrary: st sec)
  case Nil
  then show ?case by simp
next
  case (Cons chunk rest)
  obtain st1 sec1 where step: "packChunk maxChars headerChars tr thc chunk (st, sec) = (st1, sec1)"
    by (cases "packChunk maxChars headerChars tr thc chunk (st, sec)")
  have c1: "chronological (topicSection.chunks sec @ [chunk])"
    using chronological_append[of "topicSection.chunks sec @ [chunk]" rest] Cons.prems(2) by simp
  from packChunk_invariant[OF Cons.prems(1) c1 step]
  have inv1: "pack_invariant st1"
    and shape: "topicSection.chunks sec1 = topicSection.chunks sec @ [chunk] \<or> topicSection.chunks sec1 = [chunk]"
    by auto
  have c2: "chronological (topicSection.chunks sec1 @ rest)"
  proof -
    have "chronological ([chunk] @ rest)"
      using chronological_append[of "topicSection.chunks sec" "[chunk] @ rest"] Cons.prems(2) by simp
    then show ?thesis using shape Cons.prems(2) by auto
  qed
  have "fold (packChunk maxChars headerChars tr thc) rest (st1, sec1) = (st', sec')"
    using Cons.prems(3) step by simp
  from Cons.IH[OF inv1 c2 this] show ?case .
qed

lemma sortChunksChronologically_strict:
  assumes "distinct (map chronoKey cs)"
  shows "chronological (sortChunksChronologically cs)"
proof -
  have d: "distinct cs" and inj: "inj_on chronoKey (set cs)"
    using assms by (simp_all add: distinct_map)
  have "distinct (map chronoKey (sort_key chronoKey cs))"
    using d inj by (simp add: distinct_map)
  moreover have "sorted (map chronoKey (sort_key chronoKey cs))" by (rule sorted_sort_key)
  ultimately have "sorted_wrt (<) (map chronoKey (sort_key chronoKey cs))"
    by (simp add: strict_sorted_iff)
  then show ?thesis
    by (simp add: chronological_def sortChunksChronologically_def sorted_wrt_map)
qed

lemma packTopic_invariant:
  assumes "pack_invariant st" "distinct (map chronoKey (topicResult.chunks tr))"
  shows "pack_invariant (packTopic maxChars headerChars (topicIndex, tr) st)"
proof (cases "length (topicResult.chunks tr) = 0")
  case True
  then show ?thesis using assms(1) by (simp add: packTopic_def)
next
  case False
  let ?sec0 = "\<lparr>topicId = topicResult.topicId tr, topicQuestion = topicResult.topicQuestion tr,
                 chunks = [], isContinuation = False\<rparr>"
  let ?thc = "length (topicHeaderText topicIndex tr)"
  let ?sorted = "sortChunksChronologically (topicResult.chunks tr)"
  obtain st' sec' where f: "fold (packChunk maxChars headerChars tr ?thc) ?sorted (st, ?sec0) = (st', sec')"
    by (cases "fold (packChunk maxChars headerChars tr ?thc) ?sorted (st, ?sec0)")
  have "chronological (topicSection.chunks ?sec0 @ ?sorted)"
    using sortChunksChronologically_strict[OF assms(2)] by simp
  from fold_packChunk_invariant[OF assms(1) this f]
  have inv: "pack_invariant st'" and c: "chronological (topicSection.chunks sec')" by auto
  have "pack_invariant (st'\<lparr>currentTopics := currentTopics st' @ [sec']\<rparr>)"
    using inv c by (simp add: pack_invariant_def sections_chronological_def)
  then show ?thesis
    using False inv f by (simp add: packTopic_def Let_def)
qed

lemma fold_packTopic_invariant:
  assumes "pack_invariant st" "\<forall>p \<in> set indexed. distinct (map chronoKey (topicResult.chunks (snd p)))"
  shows "pack_invariant (fold (packTopic maxChars headerChars) indexed st)"
  using assms
proof (induction indexed arbitrary: st)
  case Nil
  then show ?case by simp
next
  case (Cons p rest)
  obtain i tr where p: "p = (i, tr)" by (cases p)
  have "pack_invariant (packTopic maxChars headerChars p st)"
    unfolding p using Cons.prems p by (intro packTopic_invariant) auto
  then show ?case using Cons by simp
qed

lemma createSuperChunksWithTopics_chronological:
  assumes "\<forall>tr \<in> set topicResults. distinct (map chronoKey (topicResult.chunks tr))"
  shows "\<forall>sc \<in> set (createSuperChunksWithTopics topicResults maxChars allTopics).
           sections_chronological (topics sc)"
proof -
  let ?init = "\<lparr>superChunks = [], currentChars = 0, currentTopics = [], isFirstSuperChunk = True\<rparr>"
  let ?h = "length (formatChatPackageHeader allTopics)"
  have i: "pack_invariant ?init" by (simp add: pack_invariant_def sections_chronological_def)
  have "\<forall>p \<in> set (enumerate 0 topicResults). distinct (map chronoKey (topicResult.chunks (snd p)))"
    using assms by (auto simp: in_set_enumerate_eq)
  from fold_packTopic_invariant[OF i this]
  have "pack_invariant (fold (packTopic maxChars ?h) (enumerate 0 topicResults) ?init)" .
  then show ?thesis
    by (auto simp: createSuperChunksWithTopics_def Let_def pack_invariant_def)
qed

text \<open>
  C7: in every topic section of every emitted super chunk the chunks are in chronological
  order: each adjacent pair is strictly ascending in \<open>(documentId, chunkNumber)\<close>, given
  that no topic result holds two chunks with the same \<open>(documentId, chunkNumber)\<close>.
\<close>

theorem sections_in_chronological_order:
  assumes "\<forall>tr \<in> set topicResults. distinct (map chronoKey (topicResult.chunks tr))"
    and "sc \<in> set (createSuperChunksWithTopics topicResults maxChars allTopics)"
    and "sec \<in> set (topics sc)"
    and "i + 1 < length (topicSection.chunks sec)"
  shows "(documentId (topicSection.chunks sec ! i), chunkNumber (topicSection.chunks sec ! i))
       < (documentId (topicSection.chunks sec ! (i + 1)), chunkNumber (topicSection.chunks sec ! (i + 1)))"
proof -
  have "chronological (topicSection.chunks sec)"
    using createSuperChunksWithTopics_chronological[OF assms(1)] assms(2,3)
    by (auto simp: sections_chronological_def)
  then have "chronoKey (topicSection.chunks sec ! i) < chronoKey (topicSection.chunks sec ! (i + 1))"
    using assms(4) by (simp add: chronological_def sorted_wrt_iff_nth_less)
  then show ?thesis by (simp add: chronoKey_def)
qed

lemma toFixed1_100: "toFixed1 100 = ''100.0''"
  by (simp add: toFixed1_def) code_simp

lemma show_nat_small: "show_nat 0 = ''0''" "show_nat 1 = ''1''" "show_nat (Suc 0) = ''1''"
  by code_simp+

lemma fuel_header: "length (formatChatPackageHeader [''fuel'']) = 252"
  by (simp add: formatChatPackageHeader_def enumerate_eq_zip show_nat_small)

lemma fuel_topic_header: "length (topicHeaderText 0 fuelTopic) = 20"
  by (simp add: topicHeaderText_def fuelTopic_def show_nat_small)

lemma fuel_chunk_lengths: "length (chunkFormatted pumpChunk) = 38" "length (chunkFormatted lineChunk) = 38"
  by (simp_all add: chunkFormatted_def pumpChunk_def lineChunk_def toFixed1_100 show_nat_small)

lemma fuel_sorted: "sortChunksChronologically [lineChunk, pumpChunk] = [pumpChunk, lineChunk]"
  by (simp add: sortChunksChronologically_def chronoKey_def pumpChunk_def lineChunk_def)

lemma fuel_packed:
  "createSuperChunksWithTopics [fuelTopic] 400 [''fuel'']
     = [\<lparr>topics = [fuelSection], totalChars = 348, isFirst = True\<rparr>]"
proof -
  have cs: "topicResult.chunks fuelTopic = [lineChunk, pumpChunk]"
    "topicResult.topicId fuelTopic = 1" "topicResult.topicQuestion fuelTopic = ''fuel''"
    by (simp_all add: fuelTopic_def)
  show ?thesis
    by (simp add: createSuperChunksWithTopics_def fuel_header packTopic_def cs fuel_sorted
          fuel_topic_header packChunk_cases fuel_chunk_lengths fuelSection_def)
qed

lemma fuel_rendered:
  "map_option (map length)
     (formatSuperChunks manualName [\<lparr>topics = [fuelSection], totalChars = 348, isFirst = True\<rparr>] [''fuel''])
   = Some [432]"
proof -
  have fc: "length (formatChunk pumpChunk) = 38" "length (formatChunk lineChunk) = 38"
    by (simp_all add: formatChunk_def pumpChunk_def lineChunk_def toFixed1_100 show_nat_small)
  have d: "documentId pumpChunk = 1" by (simp add: pumpChunk_def)
  show ?thesis
    by (simp add: formatSuperChunks_def formatSuperChunkContent_def formatTopicSection_def
          fuelSection_def manualName_def d fuel_header fc show_nat_small)
qed

theorem sections_in_chronological_order_witness:
  "distinct (map chronoKey (topicResult.chunks fuelTopic))
   \<and> createSuperChunksWithTopics [fuelTopic] 400 [''fuel'']
       = [\<lparr>topics = [fuelSection], totalChars = 348, isFirst = True\<rparr>]
   \<and> (documentId (topicSection.chunks fuelSection ! 0), chunkNumber (topicSection.chunks fuelSection ! 0))
       < (documentId (topicSection.chunks fuelSection ! (0 + 1)),
          chunkNumber (topicSection.chunks fuelSection ! (0 + 1)))"
proof -
  have d: "distinct (map chronoKey (topicResult.chunks fuelTopic))"
    by (simp add: fuelTopic_def chronoKey_def pumpChunk_def lineChunk_def)
  have a: "\<forall>tr \<in> set [fuelTopic]. distinct (map chronoKey (topicResult.chunks tr))"
    using d by simp
  have b: "\<lparr>topics = [fuelSection], totalChars = 348, isFirst = True\<rparr>
             \<in> set (createSuperChunksWithTopics [fuelTopic] 400 [''fuel''])"
    by (simp add: fuel_packed)
  have c: "fuelSection \<in> set (topics \<lparr>topics = [fuelSection], totalChars = 348, isFirst = True\<rparr>)"
    by simp
  have e: "0 + 1 < length (topicSection.chunks fuelSection)" by (simp add: fuelSection_def)
  show ?thesis
    using sections_in_chronological_order [OF a b c e] d fuel_packed by (intro conjI)
qed

text \<open>
  C1: the size the packer counts is not the length of the text the formatter emits. With a
  limit of 400 the two chunks of the sample topic (envelopes of 38 characters each) are packed
  into one super chunk counted as 348 characters; its rendered text has 432 characters: the
  super-chunk marker, the document label and the footers are not counted, and the topic header
  is counted in another form than it is written.
\<close>

theorem rendered_text_exceeds_limit:
  "createSuperChunksWithTopics [fuelTopic] 400 [''fuel'']
     = [\<lparr>topics = [fuelSection], totalChars = 348, isFirst = True\<rparr>]
   \<and> map_option (map length)
        (formatSuperChunks manualName (createSuperChunksWithTopics [fuelTopic] 400 [''fuel'']) [''fuel''])
     = Some [432]
   \<and> length (chunkFormatted pumpChunk) = 38 \<and> length (chunkFormatted lineChunk) = 38"
  by (simp add: fuel_packed fuel_rendered fuel_chunk_lengths)

section \<open>Range of the cosine similarity\<close>


lemma cs_step:
  fixes s A B a b :: real
  assumes "0 \<le> s" "s\<^sup>2 \<le> A * B" "0 \<le> A" "0 \<le> B" "0 \<le> a" "0 \<le> b"
  shows "(s + a * b)\<^sup>2 \<le> (A + a\<^sup>2) * (B + b\<^sup>2)"
proof -
  have s_le: "s \<le> sqrt A * sqrt B"
    using assms by (metis real_sqrt_mult real_le_rsqrt)
  have "0 \<le> (sqrt A * b - sqrt B * a)\<^sup>2" by simp
  then have amgm: "2 * (sqrt A * sqrt B) * (a * b) \<le> A * b\<^sup>2 + B * a\<^sup>2"
    using assms by (simp add: power2_diff power_mult_distrib algebra_simps)
  have "2 * s * (a * b) \<le> 2 * (sqrt A * sqrt B) * (a * b)"
    using s_le assms by (simp add: mult_right_mono)
  then have "2 * s * (a * b) \<le> A * b\<^sup>2 + B * a\<^sup>2" using amgm by linarith
  then show ?thesis using assms(2)
    by (simp add: power2_sum power_mult_distrib algebra_simps)
qed

lemma cauchy_schwarz_sum:
  fixes a b :: "'k \<Rightarrow> real"
  assumes "finite S" "\<And>t. 0 \<le> a t" "\<And>t. 0 \<le> b t"
  shows "(\<Sum>t\<in>S. a t * b t)\<^sup>2 \<le> (\<Sum>t\<in>S. (a t)\<^sup>2) * (\<Sum>t\<in>S. (b t)\<^sup>2)"
  using assms(1)
proof (induction S rule: finite_induct)
  case empty
  show ?case by simp
next
  case (insert x F)
  have "((\<Sum>t\<in>F. a t * b t) + a x * b x)\<^sup>2 \<le> ((\<Sum>t\<in>F. (a t)\<^sup>2) + (a x)\<^sup>2) * ((\<Sum>t\<in>F. (b t)\<^sup>2) + (b x)\<^sup>2)"
    by (rule cs_step) (use insert.IH assms(2,3) in \<open>auto intro!: sum_nonneg\<close>)
  then show ?case using insert.hyps by (simp add: add.commute)
qed


lemma sumSquares_keys:
  assumes "distinct (map fst v)"
  shows "sumSquares v = (\<Sum>t\<in>fst ` set v. (weight v t)\<^sup>2)"
proof -
  have "sumSquares v = (\<Sum>p\<leftarrow>v. weight v (fst p) * weight v (fst p))"
    unfolding sumSquares_sum_list
    by (rule arg_cong[where f=sum_list], rule map_cong[OF refl]) (simp add: weight_distinct[OF assms])
  also have "\<dots> = (\<Sum>t\<in>fst ` set v. weight v t * weight v t)"
    by (rule sum_list_keys[OF assms])
  finally show ?thesis by (simp add: power2_eq_square)
qed

lemma weight_nonneg: "0 \<le> weight v t"
  by (simp add: weight_def split: option.splits)

lemma dotProduct_nonneg: "distinct (map fst vec1) \<Longrightarrow> 0 \<le> dotProduct vec1 vec2"
  by (simp add: dotProduct_keys sum_nonneg weight_nonneg)

lemma dotProduct_le_magnitudes:
  assumes "distinct (map fst vec1)" "distinct (map fst vec2)"
  shows "dotProduct vec1 vec2 \<le> sqrt (sumSquares vec1) * sqrt (sumSquares vec2)"
proof -
  let ?S = "fst ` set vec1 \<inter> fst ` set vec2"
  have "(dotProduct vec1 vec2)\<^sup>2 \<le> (\<Sum>t\<in>?S. (weight vec1 t)\<^sup>2) * (\<Sum>t\<in>?S. (weight vec2 t)\<^sup>2)"
    unfolding dotProduct_inter[OF assms(1)]
    by (rule cauchy_schwarz_sum) (simp_all add: weight_nonneg)
  also have "\<dots> \<le> sumSquares vec1 * sumSquares vec2"
    unfolding sumSquares_keys[OF assms(1)] sumSquares_keys[OF assms(2)]
    by (intro mult_mono sum_mono2 sum_nonneg) auto
  finally have "(dotProduct vec1 vec2)\<^sup>2 \<le> sumSquares vec1 * sumSquares vec2" .
  then have "dotProduct vec1 vec2 \<le> sqrt (sumSquares vec1 * sumSquares vec2)"
    by (rule real_le_rsqrt)
  then show ?thesis by (simp add: real_sqrt_mult)
qed

lemma cosineSimilarity_exact_bounds:
  assumes "distinct (map fst vec1)" "distinct (map fst vec2)"
  shows "0 \<le> cosineSimilarity (Some vec1) (Some vec2) \<and> cosineSimilarity (Some vec1) (Some vec2) \<le> 1"
proof -
  have n: "0 \<le> dotProduct vec1 vec2" by (rule dotProduct_nonneg[OF assms(1)])
  have m: "0 \<le> sqrt (sumSquares vec1) * sqrt (sumSquares vec2)"
    using n dotProduct_le_magnitudes[OF assms] by linarith
  have "dotProduct vec1 vec2 / (sqrt (sumSquares vec1) * sqrt (sumSquares vec2)) \<le> 1"
    if "sqrt (sumSquares vec1) * sqrt (sumSquares vec2) \<noteq> 0"
    using that m dotProduct_le_magnitudes[OF assms] by (simp add: divide_le_eq)
  moreover have "0 \<le> dotProduct vec1 vec2 / (sqrt (sumSquares vec1) * sqrt (sumSquares vec2))"
    using n m by simp
  ultimately show ?thesis
    by (auto simp: cosineSimilarity_def Let_def)
qed


lemma sqrt3_double: "fl (sqrt 3) = 7800463371553962 / 4503599627370496"
proof -
  have lo: "(7800463371553962 - 1 / 2) / 4503599627370496 < sqrt 3"
    by (rule real_less_rsqrt) (simp add: power2_eq_square)
  have hi: "sqrt 3 < (7800463371553962 + 1 / 2) / 4503599627370496"
    by (rule real_less_lsqrt) (simp_all add: power2_eq_square)
  have b1: "1 \<le> sqrt 3" by simp
  have b2: "sqrt 3 < 2" by (rule real_less_lsqrt) simp_all
  have p: "0 < sqrt 3" by simp
  show ?thesis
    using fl_near[of "sqrt 3" 0 7800463371553962] lo hi b1 b2 p
    by (simp add: power_int_minus field_simps)
qed

lemma square_double:
  "fl (7800463371553962 / 4503599627370496 * (7800463371553962 / 4503599627370496))
     = 6755399441055743 / 2251799813685248"
  using fl_near[of "7800463371553962 / 4503599627370496 * (7800463371553962 / 4503599627370496)"
          1 6755399441055743]
  by (simp add: power_int_minus)

lemma quotient_double:
  "fl (3 / (6755399441055743 / 2251799813685248)) = 4503599627370497 / 4503599627370496"
  using fl_near[of "3 / (6755399441055743 / 2251799813685248)" 0 4503599627370497]
  by (simp add: power_int_minus)

lemma threeTerms_double:
  "cosineSimilarity_double (Some threeTerms) (Some threeTerms) = 4503599627370497 / 4503599627370496"
proof -
  have dp: "dotProduct_double threeTerms threeTerms = 3"
    by (simp add: dotProduct_double_def threeTerms_def fl_1 fl_2 fl_3)
  have ss: "sumSquares_double threeTerms = 3"
    by (simp add: sumSquares_double_def threeTerms_def fl_1 fl_2 fl_3)
  have len: "length threeTerms = 3" by (simp add: threeTerms_def)
  define M :: real where "M = 7800463371553962 / 4503599627370496"
  define P :: real where "P = 6755399441055743 / 2251799813685248"
  have m: "fl (sqrt 3) = M" by (simp add: sqrt3_double M_def)
  have pr: "fl (M * M) = P" unfolding M_def P_def by (rule square_double)
  have q: "fl (3 / P) = 4503599627370497 / 4503599627370496" unfolding P_def by (rule quotient_double)
  have nz: "M \<noteq> 0" by (simp add: M_def)
  show ?thesis
    by (simp add: cosineSimilarity_double_fl dp ss len m pr q nz Let_def)
qed

lemma cosineSimilarity_double_nonneg: "0 \<le> cosineSimilarity_double v1 v2"
proof -
  have "0 \<le> fl (dotProduct_double a b / fl (fl (sqrt (sumSquares_double a)) * fl (sqrt (sumSquares_double b))))" for a b
    by (intro fl_nonneg divide_nonneg_nonneg mult_nonneg_nonneg dotProduct_double_nonneg)
       (simp_all add: sumSquares_double_nonneg)
  then show ?thesis
    by (auto simp: cosineSimilarity_double_fl Let_def split: option.splits)
qed

text \<open>
  The upper bound in doubles. While the sums of squares stay below \<open>2\<^sup>5\<^sup>3\<close> the three sums
  are exact, so only the two square roots, their product and the quotient are rounded: the
  quotient is at most \<open>(1 - 2\<^sup>-\<^sup>5\<^sup>3)\<^sup>-\<^sup>3\<close> before it is rounded, hence at most the double
  \<open>1 + 2\<^sup>-\<^sup>5\<^sup>1\<close> after.
\<close>

lemma sumSquares_nonneg: "0 \<le> sumSquares v"
  by (auto simp: sumSquares_sum_list intro!: sum_list_nonneg)

lemma rounding_allowance: "1 / (1 - 1 / 2 ^ 53) ^ 3 \<le> (1::real) + 1 / 2 ^ 51"
proof -
  define c :: real where "c = (1 - 1 / 2 ^ 53) ^ 3"
  have pos: "0 < c" by (simp add: c_def)
  have "1 \<le> (1 + 1 / 2 ^ 51) * c" by (simp add: c_def power3_eq_cube)
  then have "1 / c \<le> 1 + 1 / 2 ^ 51" using pos by (simp add: divide_le_eq)
  then show ?thesis by (simp only: c_def)
qed

lemma cosineSimilarity_double_upper:
  assumes "distinct (map fst vec1)" "distinct (map fst vec2)"
    and "sumSquares vec1 \<le> 2 ^ 53" "sumSquares vec2 \<le> 2 ^ 53"
  shows "cosineSimilarity_double (Some vec1) (Some vec2) \<le> 1 + 1 / 2 ^ 51"
proof -
  define S1 where "S1 = sumSquares vec1"
  define S2 where "S2 = sumSquares vec2"
  define D where "D = dotProduct vec1 vec2"
  define m1 where "m1 = fl (sqrt S1)"
  define m2 where "m2 = fl (sqrt S2)"
  define u :: real where "u = 1 / 2 ^ 53"
  have s1: "0 \<le> S1" and s2: "0 \<le> S2" by (simp_all add: S1_def S2_def sumSquares_nonneg)
  have "sqrt S1 * sqrt S2 \<le> sqrt (2 ^ 53) * sqrt (2 ^ 53)"
    using assms(3,4) s1 s2 unfolding S1_def S2_def by (intro mult_mono) simp_all
  then have m: "sqrt S1 * sqrt S2 \<le> 2 ^ 53" by simp
  have dle: "D \<le> sqrt S1 * sqrt S2"
    unfolding D_def S1_def S2_def by (rule dotProduct_le_magnitudes[OF assms(1,2)])
  have d0: "0 \<le> D" unfolding D_def by (rule dotProduct_nonneg[OF assms(1)])
  have dd: "dotProduct_double vec1 vec2 = D"
    unfolding D_def by (rule dotProduct_double_exact) (use dle m in \<open>simp add: D_def\<close>)
  have ss: "sumSquares_double vec1 = S1" "sumSquares_double vec2 = S2"
    unfolding S1_def S2_def by (rule sumSquares_double_exact, rule assms)+
  have val: "cosineSimilarity_double (Some vec1) (Some vec2) =
      (if length vec1 = 0 \<or> length vec2 = 0 then 0
       else if m1 = 0 \<or> m2 = 0 then 0 else fl (D / fl (m1 * m2)))"
    by (simp add: cosineSimilarity_double_fl Let_def dd ss m1_def m2_def)
  have main: "fl (D / fl (m1 * m2)) \<le> 1 + 1 / 2 ^ 51" if nz: "m1 \<noteq> 0" "m2 \<noteq> 0"
  proof (cases "D = 0")
    case True
    then show ?thesis by (simp add: fl_0)
  next
    case False
    then have dpos: "0 < D" using d0 by simp
    have p1: "0 < sqrt S1"
    proof (rule ccontr)
      assume "\<not> 0 < sqrt S1"
      then have "sqrt S1 = 0" using s1 by (simp add: not_less)
      then show False using nz(1) by (simp add: m1_def fl_0)
    qed
    have p2: "0 < sqrt S2"
    proof (rule ccontr)
      assume "\<not> 0 < sqrt S2"
      then have "sqrt S2 = 0" using s2 by (simp add: not_less)
      then show False using nz(2) by (simp add: m2_def fl_0)
    qed
    have up: "0 < 1 - u" by (simp add: u_def)
    have l1: "sqrt S1 * (1 - u) \<le> m1" unfolding m1_def u_def by (rule fl_lower[OF p1])
    have l2: "sqrt S2 * (1 - u) \<le> m2" unfolding m2_def u_def by (rule fl_lower[OF p2])
    have a1: "0 < sqrt S1 * (1 - u)" and a2: "0 < sqrt S2 * (1 - u)" using p1 p2 up by simp_all
    have mp: "0 < m1 * m2" using a1 a2 l1 l2 by (intro mult_pos_pos) linarith+
    have "(sqrt S1 * (1 - u)) * (sqrt S2 * (1 - u)) \<le> m1 * m2"
      using l1 l2 a1 a2 by (intro mult_mono) simp_all
    then have "(sqrt S1 * (1 - u)) * (sqrt S2 * (1 - u)) * (1 - u) \<le> m1 * m2 * (1 - u)"
      using up by (simp only: mult_le_cancel_right_pos)
    moreover have "m1 * m2 * (1 - u) \<le> fl (m1 * m2)" unfolding u_def by (rule fl_lower[OF mp])
    ultimately have low: "(sqrt S1 * sqrt S2) * (1 - u) ^ 3 \<le> fl (m1 * m2)"
      by (simp add: power3_eq_cube algebra_simps)
    have spos: "0 < sqrt S1 * sqrt S2" using p1 p2 by simp
    have cpos: "0 < (sqrt S1 * sqrt S2) * (1 - u) ^ 3" using spos up by simp
    have "D / fl (m1 * m2) \<le> (sqrt S1 * sqrt S2) / ((sqrt S1 * sqrt S2) * (1 - u) ^ 3)"
      using dle d0 low cpos by (intro frac_le) simp_all
    also have "\<dots> = 1 / (1 - u) ^ 3"
    proof -
      have "sqrt S1 * sqrt S2 \<noteq> 0" using spos by linarith
      then show ?thesis by (rule nonzero_divide_mult_cancel_left)
    qed
    also have "\<dots> \<le> 1 + 1 / 2 ^ 51" unfolding u_def by (rule rounding_allowance)
    finally have y: "D / fl (m1 * m2) \<le> 1 + 1 / 2 ^ 51" .
    have "0 < fl (m1 * m2)" using low cpos by linarith
    then have "0 < D / fl (m1 * m2)" using dpos by simp
    then show ?thesis using y by (rule fl_upper_near_one)
  qed
  show ?thesis unfolding val using main by auto
qed

text \<open>
  Without a bound on the counts the sums are rounded too, each step by a factor between
  \<open>1 - 2\<^sup>-\<^sup>5\<^sup>3\<close> and \<open>1 + 2\<^sup>-\<^sup>5\<^sup>3\<close> for the product and again for the sum, so the allowance
  grows with the sizes of the vectors.
\<close>

lemma dotProduct_double_upper_fold:
  fixes a a' :: real
  assumes "0 \<le> a'" "a' \<le> a * (1 + 1 / 2 ^ 53) ^ k"
  shows "fold (\<lambda>(term, count1) acc.
             (case map_of vec2 term of
                Some count2 \<Rightarrow> fl (acc + fl (real count1 * real count2))
              | None \<Rightarrow> acc)) xs a'
       \<le> fold (\<lambda>(term, count1) acc.
             (case map_of vec2 term of
                Some count2 \<Rightarrow> acc + real count1 * real count2
              | None \<Rightarrow> acc)) xs a * (1 + 1 / 2 ^ 53) ^ (k + 2 * length xs)"
  using assms
proof (induction xs arbitrary: a a' k)
  case Nil
  then show ?case by simp
next
  case (Cons p xs)
  define w :: real where "w = 1 + 1 / 2 ^ 53"
  have w1: "1 \<le> w" by (simp add: w_def)
  have w0: "0 \<le> w" using w1 by linarith
  obtain t c1 where p: "p = (t, c1)" by (cases p)
  have le: "a' \<le> a * w ^ k" using Cons.prems(2) unfolding w_def .
  have a0: "0 \<le> a * w ^ k" using Cons.prems(1) le by linarith
  have wk: "w ^ k \<le> w ^ (k + 2)" using w1 by (intro power_increasing) simp_all
  have pk: "0 < w ^ k" using w1 by simp
  have an: "0 \<le> a" using a0 pk by (simp add: zero_le_mult_iff)
  show ?case
  proof (cases "map_of vec2 t")
    case None
    have "a * w ^ k \<le> a * w ^ (k + 2)" using wk an by (rule mult_left_mono)
    then have "a' \<le> a * w ^ (k + 2)" using le by linarith
    then have "a' \<le> a * (1 + 1 / 2 ^ 53) ^ (k + 2)" unfolding w_def .
    from Cons.IH[OF Cons.prems(1) this] show ?thesis
      using None by (simp add: p add.commute add.left_commute)
  next
    case (Some c2)
    define x :: real where "x = real c1 * real c2"
    have x0: "0 \<le> x" by (simp add: x_def)
    have f1: "fl x \<le> x * w" unfolding w_def by (rule fl_upper[OF x0])
    have f0: "0 \<le> fl x" by (rule fl_nonneg[OF x0])
    have s0: "0 \<le> a' + fl x" using Cons.prems(1) f0 by simp
    have "fl (a' + fl x) \<le> (a' + fl x) * w" unfolding w_def by (rule fl_upper[OF s0])
    also have "\<dots> \<le> (a * w ^ k + x * w) * w"
      using le f1 w0 by (intro mult_right_mono add_mono)
    also have "\<dots> \<le> (a * w ^ (k + 1) + x * w ^ (k + 1)) * w"
    proof -
      have "a * w ^ k \<le> a * w ^ (k + 1)"
        using w1 an by (intro mult_left_mono power_increasing) simp_all
      moreover have "x * w \<le> x * w ^ (k + 1)"
        using w1 x0 self_le_power[of w "k + 1"] by (intro mult_left_mono) simp_all
      ultimately show ?thesis using w0 by (intro mult_right_mono add_mono) simp_all
    qed
    also have "\<dots> = (a + x) * w ^ (k + 2)" by (simp add: algebra_simps)
    finally have "fl (a' + fl x) \<le> (a + x) * w ^ (k + 2)" .
    then have step: "fl (a' + fl x) \<le> (a + x) * (1 + 1 / 2 ^ 53) ^ (k + 2)" unfolding w_def .
    have n: "0 \<le> fl (a' + fl x)" by (rule fl_nonneg[OF s0])
    from Cons.IH[OF n step] show ?thesis
      using Some by (simp add: p x_def add.commute add.left_commute)
  qed
qed

lemma dotProduct_double_upper:
  "dotProduct_double vec1 vec2 \<le> dotProduct vec1 vec2 * (1 + 1 / 2 ^ 53) ^ (2 * length vec1)"
  using dotProduct_double_upper_fold[of 0 0 0 vec2 vec1]
  by (simp add: dotProduct_double_def dotProduct_def)

lemma sumSquares_double_lower_fold:
  fixes a a' :: real
  assumes "0 \<le> a" "a * (1 - 1 / 2 ^ 53) ^ k \<le> a'"
  shows "fold (\<lambda>(term, count) acc. acc + real count * real count) xs a
           * (1 - 1 / 2 ^ 53) ^ (k + 2 * length xs)
       \<le> fold (\<lambda>(term, count) acc. fl (acc + fl (real count * real count))) xs a'"
  using assms
proof (induction xs arbitrary: a a' k)
  case Nil
  then show ?case by simp
next
  case (Cons p xs)
  define w :: real where "w = 1 - 1 / 2 ^ 53"
  have w1: "w \<le> 1" and w0: "0 \<le> w" and wp: "0 < w" by (simp_all add: w_def)
  obtain t c where p: "p = (t, c)" by (cases p)
  define x :: real where "x = real c * real c"
  have x0: "0 \<le> x" by (simp add: x_def)
  have le: "a * w ^ k \<le> a'" using Cons.prems(2) unfolding w_def .
  have ak: "0 \<le> a * w ^ k" using Cons.prems(1) w0 by simp
  have a'0: "0 \<le> a'" using ak le by linarith
  have f1: "x * w \<le> fl x" unfolding w_def by (rule fl_lower0[OF x0])
  have f0: "0 \<le> fl x" by (rule fl_nonneg[OF x0])
  have s0: "0 \<le> a' + fl x" using a'0 f0 by simp
  have "(a + x) * w ^ (k + 2) = (a * w ^ (k + 1) + x * w ^ (k + 1)) * w" by (simp add: algebra_simps)
  also have "\<dots> \<le> (a * w ^ k + x * w) * w"
  proof -
    have "a * w ^ (k + 1) \<le> a * w ^ k"
      using w1 w0 Cons.prems(1) by (intro mult_left_mono power_decreasing) simp_all
    moreover have "w ^ (k + 1) \<le> w ^ 1"
      using w1 w0 by (intro power_decreasing) simp_all
    then have "x * w ^ (k + 1) \<le> x * w" using x0 mult_left_mono[of "w ^ (k + 1)" w x] by simp
    ultimately show ?thesis using w0 by (intro mult_right_mono add_mono) simp_all
  qed
  also have "\<dots> \<le> (a' + fl x) * w"
    using le f1 w0 by (intro mult_right_mono add_mono)
  also have "\<dots> \<le> fl (a' + fl x)" unfolding w_def by (rule fl_lower0[OF s0])
  finally have "(a + x) * w ^ (k + 2) \<le> fl (a' + fl x)" .
  then have step: "(a + x) * (1 - 1 / 2 ^ 53) ^ (k + 2) \<le> fl (a' + fl x)" unfolding w_def .
  have n: "0 \<le> a + x" using Cons.prems(1) x0 by simp
  from Cons.IH[OF n step] show ?case
    by (simp add: p x_def add.commute add.left_commute)
qed

lemma sumSquares_double_lower:
  "sumSquares v * (1 - 1 / 2 ^ 53) ^ (2 * length v) \<le> sumSquares_double v"
  using sumSquares_double_lower_fold[of 0 0 0 v]
  by (simp add: sumSquares_double_def sumSquares_def)

lemma sqrt_even_power: "0 \<le> (x::real) \<Longrightarrow> sqrt (x ^ (2 * n)) = x ^ n"
proof -
  assume x: "0 \<le> x"
  have "x ^ (2 * n) = (x ^ n)\<^sup>2" using power_mult[of x n 2] by (simp add: mult.commute)
  then show ?thesis using x by simp
qed

lemma cosineSimilarity_double_upper_general:
  assumes "distinct (map fst vec1)" "distinct (map fst vec2)"
  shows "cosineSimilarity_double (Some vec1) (Some vec2)
       \<le> (1 + 1 / 2 ^ 53) ^ (2 * length vec1 + 1) / (1 - 1 / 2 ^ 53) ^ (length vec1 + length vec2 + 3)"
proof -
  define up :: real where "up = 1 + 1 / 2 ^ 53"
  define lo :: real where "lo = 1 - 1 / 2 ^ 53"
  define n1 where "n1 = length vec1"
  define n2 where "n2 = length vec2"
  define S1 where "S1 = sumSquares vec1"
  define S2 where "S2 = sumSquares vec2"
  define D where "D = dotProduct vec1 vec2"
  define D' where "D' = dotProduct_double vec1 vec2"
  define m1 where "m1 = fl (sqrt (sumSquares_double vec1))"
  define m2 where "m2 = fl (sqrt (sumSquares_double vec2))"
  define B where "B = up ^ (2 * n1 + 1) / lo ^ (n1 + n2 + 3)"
  have up1: "1 \<le> up" and up0: "0 < up" by (simp_all add: up_def)
  have lo0: "0 < lo" and lo1: "lo \<le> 1" by (simp_all add: lo_def)
  have B0: "0 \<le> B" using up0 lo0 by (simp add: B_def)
  have s1: "0 \<le> S1" and s2: "0 \<le> S2" by (simp_all add: S1_def S2_def sumSquares_nonneg)
  have dle: "D \<le> sqrt S1 * sqrt S2"
    unfolding D_def S1_def S2_def by (rule dotProduct_le_magnitudes[OF assms])
  have d0: "0 \<le> D" unfolding D_def by (rule dotProduct_nonneg[OF assms(1)])
  have d'0: "0 \<le> D'" unfolding D'_def by (rule dotProduct_double_nonneg)
  have d'le: "D' \<le> D * up ^ (2 * n1)"
    unfolding D'_def D_def up_def n1_def by (rule dotProduct_double_upper)
  have val: "cosineSimilarity_double (Some vec1) (Some vec2) =
      (if length vec1 = 0 \<or> length vec2 = 0 then 0
       else if m1 = 0 \<or> m2 = 0 then 0 else fl (D' / fl (m1 * m2)))"
    by (simp add: cosineSimilarity_double_fl Let_def D'_def m1_def m2_def)
  have main: "fl (D' / fl (m1 * m2)) \<le> B"
  proof (cases "D = 0")
    case True
    then have "D' = 0" using d'le d'0 by simp
    then show ?thesis using B0 by (simp add: fl_0)
  next
    case False
    then have dpos: "0 < D" using d0 by simp
    then have spos: "0 < sqrt S1 * sqrt S2" using dle by linarith
    have p1: "0 < sqrt S1" and p2: "0 < sqrt S2"
      using spos s1 s2 by (simp_all add: zero_less_mult_iff)
    have q1: "sqrt S1 * lo ^ n1 \<le> sqrt (sumSquares_double vec1)"
    proof -
      have "sqrt (S1 * lo ^ (2 * n1)) \<le> sqrt (sumSquares_double vec1)"
        unfolding S1_def lo_def n1_def by (intro real_sqrt_le_mono sumSquares_double_lower)
      moreover have "sqrt (S1 * lo ^ (2 * n1)) = sqrt S1 * lo ^ n1"
        using lo0 sqrt_even_power[of lo n1] by (simp only: real_sqrt_mult)
      ultimately show ?thesis by simp
    qed
    have q2: "sqrt S2 * lo ^ n2 \<le> sqrt (sumSquares_double vec2)"
    proof -
      have "sqrt (S2 * lo ^ (2 * n2)) \<le> sqrt (sumSquares_double vec2)"
        unfolding S2_def lo_def n2_def by (intro real_sqrt_le_mono sumSquares_double_lower)
      moreover have "sqrt (S2 * lo ^ (2 * n2)) = sqrt S2 * lo ^ n2"
        using lo0 sqrt_even_power[of lo n2] by (simp only: real_sqrt_mult)
      ultimately show ?thesis by simp
    qed
    have r1: "0 < sqrt S1 * lo ^ n1" and r2: "0 < sqrt S2 * lo ^ n2" using p1 p2 lo0 by simp_all
    have l1: "sqrt S1 * lo ^ n1 * lo \<le> m1"
    proof -
      have "sqrt S1 * lo ^ n1 * lo \<le> sqrt (sumSquares_double vec1) * lo"
        using q1 lo0 by (simp only: mult_le_cancel_right_pos)
      also have "\<dots> \<le> m1" unfolding m1_def lo_def
        by (rule fl_lower0) (simp add: sumSquares_double_nonneg)
      finally show ?thesis .
    qed
    have l2: "sqrt S2 * lo ^ n2 * lo \<le> m2"
    proof -
      have "sqrt S2 * lo ^ n2 * lo \<le> sqrt (sumSquares_double vec2) * lo"
        using q2 lo0 by (simp only: mult_le_cancel_right_pos)
      also have "\<dots> \<le> m2" unfolding m2_def lo_def
        by (rule fl_lower0) (simp add: sumSquares_double_nonneg)
      finally show ?thesis .
    qed
    have t1: "0 < sqrt S1 * lo ^ n1 * lo" and t2: "0 < sqrt S2 * lo ^ n2 * lo"
      using r1 r2 lo0 by simp_all
    have mp: "0 < m1 * m2" using t1 t2 l1 l2 by (intro mult_pos_pos) linarith+
    have "(sqrt S1 * lo ^ n1 * lo) * (sqrt S2 * lo ^ n2 * lo) \<le> m1 * m2"
      using l1 l2 t1 t2 by (intro mult_mono) simp_all
    then have "(sqrt S1 * lo ^ n1 * lo) * (sqrt S2 * lo ^ n2 * lo) * lo \<le> m1 * m2 * lo"
      using lo0 by (simp only: mult_le_cancel_right_pos)
    moreover have "m1 * m2 * lo \<le> fl (m1 * m2)" unfolding lo_def by (rule fl_lower[OF mp])
    ultimately have low: "(sqrt S1 * sqrt S2) * lo ^ (n1 + n2 + 3) \<le> fl (m1 * m2)"
      by (simp add: power_add power3_eq_cube algebra_simps)
    have cpos: "0 < (sqrt S1 * sqrt S2) * lo ^ (n1 + n2 + 3)" using spos lo0 by simp
    have fpos: "0 < fl (m1 * m2)" using low cpos by linarith
    have num: "D' \<le> (sqrt S1 * sqrt S2) * up ^ (2 * n1)"
    proof -
      have "D * up ^ (2 * n1) \<le> (sqrt S1 * sqrt S2) * up ^ (2 * n1)"
        using dle up0 by (intro mult_right_mono) simp_all
      then show ?thesis using d'le by linarith
    qed
    have "D' / fl (m1 * m2)
        \<le> ((sqrt S1 * sqrt S2) * up ^ (2 * n1)) / ((sqrt S1 * sqrt S2) * lo ^ (n1 + n2 + 3))"
      using num d'0 low cpos by (intro frac_le) simp_all
    also have "\<dots> = up ^ (2 * n1) / lo ^ (n1 + n2 + 3)"
    proof -
      have "sqrt S1 * sqrt S2 \<noteq> 0" using spos by linarith
      then show ?thesis by (rule nonzero_mult_divide_mult_cancel_left)
    qed
    finally have y: "D' / fl (m1 * m2) \<le> up ^ (2 * n1) / lo ^ (n1 + n2 + 3)" .
    have y0: "0 \<le> D' / fl (m1 * m2)" using d'0 fpos by simp
    have "fl (D' / fl (m1 * m2)) \<le> D' / fl (m1 * m2) * up"
      unfolding up_def by (rule fl_upper[OF y0])
    also have "\<dots> \<le> up ^ (2 * n1) / lo ^ (n1 + n2 + 3) * up"
      using y up0 by (simp only: mult_le_cancel_right_pos)
    also have "\<dots> = B" by (simp add: B_def)
    finally show ?thesis .
  qed
  have "cosineSimilarity_double (Some vec1) (Some vec2) \<le> B"
    unfolding val using main B0 by auto
  then show ?thesis by (simp add: B_def up_def lo_def n1_def n2_def)
qed

text \<open>
  C9, as stated, fails on the upper bound: for the vector of three counts 1 against itself
  the doubles give \<open>3 / (sqrt 3 * sqrt 3) = 1 + 2\<^sup>-\<^sup>5\<^sup>2\<close>, printed as 1.0000000000000002.
\<close>

theorem cosineSimilarity_above_one_counterexample:
  "cosineSimilarity_double (Some threeTerms) (Some threeTerms) = 4503599627370497 / 4503599627370496
   \<and> (1::real) < 4503599627370497 / 4503599627370496"
  by (simp add: threeTerms_double)

text \<open>
  C9 (amended): for every pair of sparse count vectors the similarity returned is at least 0,
  and it is 0 whenever either vector is empty or has magnitude 0; it is at most
  \<open>1 + 2\<^sup>-\<^sup>5\<^sup>1\<close> whenever the sums of squared counts of both vectors are at most
  \<open>2\<^sup>5\<^sup>3\<close>, and in every case at most
  \<open>(1 + 2\<^sup>-\<^sup>5\<^sup>3)\<^bsup>2m+1\<^esup> / (1 - 2\<^sup>-\<^sup>5\<^sup>3)\<^bsup>m+n+3\<^esup>\<close> for vectors of \<open>m\<close> and \<open>n\<close> entries;
  and the exact quotient \<open>\<Sum>(vec1[t] * vec2[t]) / (\<parallel>vec1\<parallel> * \<parallel>vec2\<parallel>)\<close>, which the returned
  double approximates, lies in \<open>[0, 1]\<close>.
\<close>

theorem cosineSimilarity_range:
  assumes "distinct (map fst vec1)" "distinct (map fst vec2)"
  shows "0 \<le> cosineSimilarity_double (Some vec1) (Some vec2)
       \<and> (vec1 = [] \<or> vec2 = [] \<or> sqrt_double (sumSquares_double vec1) = 0
            \<or> sqrt_double (sumSquares_double vec2) = 0
          \<longrightarrow> cosineSimilarity_double (Some vec1) (Some vec2) = 0)
       \<and> (sumSquares vec1 \<le> 2 ^ 53 \<and> sumSquares vec2 \<le> 2 ^ 53
          \<longrightarrow> cosineSimilarity_double (Some vec1) (Some vec2) \<le> 1 + 1 / 2 ^ 51)
       \<and> cosineSimilarity_double (Some vec1) (Some vec2)
           \<le> (1 + 1 / 2 ^ 53) ^ (2 * length vec1 + 1) / (1 - 1 / 2 ^ 53) ^ (length vec1 + length vec2 + 3)
       \<and> 0 \<le> cosineSimilarity (Some vec1) (Some vec2)
       \<and> cosineSimilarity (Some vec1) (Some vec2) \<le> 1"
proof -
  have z: "vec1 = [] \<or> vec2 = [] \<or> sqrt_double (sumSquares_double vec1) = 0
            \<or> sqrt_double (sumSquares_double vec2) = 0
          \<longrightarrow> cosineSimilarity_double (Some vec1) (Some vec2) = 0"
    by (auto simp: cosineSimilarity_double_def Let_def)
  show ?thesis
    using cosineSimilarity_double_nonneg[of "Some vec1" "Some vec2"] z
      cosineSimilarity_exact_bounds[OF assms] cosineSimilarity_double_upper[OF assms]
      cosineSimilarity_double_upper_general[OF assms] by blast
qed

theorem cosineSimilarity_range_witness:
  "distinct (map fst threeTerms) \<and> distinct (map fst ([] :: vec))
   \<and> sumSquares threeTerms \<le> 2 ^ 53
   \<and> 0 \<le> cosineSimilarity_double (Some threeTerms) (Some threeTerms)
   \<and> cosineSimilarity_double (Some threeTerms) (Some threeTerms) \<le> 1 + 1 / 2 ^ 51
   \<and> cosineSimilarity (Some threeTerms) (Some threeTerms) \<le> 1
   \<and> cosineSimilarity_double (Some []) (Some threeTerms) = 0"
proof -
  have d: "distinct (map fst threeTerms)" by (simp add: threeTerms_def)
  have e: "distinct (map fst ([] :: vec))" by simp
  have s: "sumSquares threeTerms \<le> 2 ^ 53" by (simp add: sumSquares_def threeTerms_def)
  show ?thesis
    using cosineSimilarity_range[OF d d] cosineSimilarity_range[OF e d] d s by simp
qed
section \<open>Commutativity of the cosine similarity\<close>


lemma cosineSimilarity_double_commute:
  assumes "distinct (map fst vec1)" "distinct (map fst vec2)"
    and "sumSquares vec1 \<le> 2 ^ 53" "sumSquares vec2 \<le> 2 ^ 53"
  shows "cosineSimilarity_double (Some vec1) (Some vec2) = cosineSimilarity_double (Some vec2) (Some vec1)"
proof -
  have s1: "0 \<le> sumSquares vec1" and s2: "0 \<le> sumSquares vec2"
    by (auto simp: sumSquares_sum_list intro!: sum_list_nonneg)
  have "sqrt (sumSquares vec1) * sqrt (sumSquares vec2) \<le> sqrt (2 ^ 53) * sqrt (2 ^ 53)"
    using assms(3,4) s1 s2 by (intro mult_mono) simp_all
  then have m: "sqrt (sumSquares vec1) * sqrt (sumSquares vec2) \<le> 2 ^ 53" by simp
  have d12: "dotProduct vec1 vec2 \<le> 2 ^ 53"
    using dotProduct_le_magnitudes[OF assms(1,2)] m by linarith
  have d21: "dotProduct vec2 vec1 \<le> 2 ^ 53"
    using d12 dotProduct_commute[OF assms(1,2)] by simp
  have "dotProduct_double vec1 vec2 = dotProduct_double vec2 vec1"
    using dotProduct_double_exact[OF d12] dotProduct_double_exact[OF d21]
      dotProduct_commute[OF assms(1,2)] by simp
  then show ?thesis
    by (auto simp: cosineSimilarity_double_fl Let_def mult.commute)
qed

text \<open>
  C10: \<open>cosineSimilarity\<close> is commutative. For all sparse count vectors \<open>vec1\<close>, \<open>vec2\<close>
  (Maps, so no key occurs twice), \<open>cosineSimilarity(vec1, vec2) = cosineSimilarity(vec2, vec1)\<close>
  in exact arithmetic, and likewise in double arithmetic as long as the sums of squared
  counts stay within the exactly representable integers (up to \<open>2\<^sup>5\<^sup>3\<close>).
\<close>

theorem cosineSimilarity_commutative:
  assumes "distinct (map fst vec1)" "distinct (map fst vec2)"
  shows "cosineSimilarity (Some vec1) (Some vec2) = cosineSimilarity (Some vec2) (Some vec1)
       \<and> (sumSquares vec1 \<le> 2 ^ 53 \<and> sumSquares vec2 \<le> 2 ^ 53
            \<longrightarrow> cosineSimilarity_double (Some vec1) (Some vec2)
                = cosineSimilarity_double (Some vec2) (Some vec1))"
proof -
  have "cosineSimilarity (Some vec1) (Some vec2) = cosineSimilarity (Some vec2) (Some vec1)"
    using dotProduct_commute[OF assms]
    by (auto simp: cosineSimilarity_def Let_def mult.commute)
  then show ?thesis
    using cosineSimilarity_double_commute[OF assms] by blast
qed

theorem cosineSimilarity_commutative_witness:
  "distinct (map fst [(''a'', 1::nat), (''b'', 2)]) \<and> distinct (map fst [(''b'', 3::nat), (''c'', 1)])
   \<and> cosineSimilarity (Some [(''a'', 1), (''b'', 2)]) (Some [(''b'', 3), (''c'', 1)])
     = cosineSimilarity (Some [(''b'', 3), (''c'', 1)]) (Some [(''a'', 1), (''b'', 2)])
   \<and> cosineSimilarity_double (Some [(''a'', 1), (''b'', 2)]) (Some [(''b'', 3), (''c'', 1)])
     = cosineSimilarity_double (Some [(''b'', 3), (''c'', 1)]) (Some [(''a'', 1), (''b'', 2)])"
proof -
  have d: "distinct (map fst [(''a'', 1::nat), (''b'', 2)])" "distinct (map fst [(''b'', 3::nat), (''c'', 1)])"
    by simp_all
  have s: "sumSquares [(''a'', 1), (''b'', 2)] \<le> 2 ^ 53" "sumSquares [(''b'', 3), (''c'', 1)] \<le> 2 ^ 53"
    by (simp_all add: sumSquares_def)
  show ?thesis
    using cosineSimilarity_commutative[OF d] d s by blast
qed

end
